theory Spec2Isabelle
  imports Main "HOL-Library.Sublist"
begin

section \<open>Text primitives of \<^verbatim>\<open>data/contact.py\<close>\<close>

text \<open>
  A Python \<^verbatim>\<open>str\<close> is modelled as a \<^typ>\<open>string\<close>; one \<^typ>\<open>char\<close> stands for one
  code point (the model covers the code points below 256).  Character classes are
  written over the code \<^term>\<open>of_char c :: nat\<close>.
\<close>

definition code :: "char \<Rightarrow> nat" where
  "code c = of_char c"

definition is_space :: "char \<Rightarrow> bool" where
  \<comment> \<open>the class \<^verbatim>\<open>\s\<close> of a \<^verbatim>\<open>str\<close> pattern: tab, LF, VT, FF, CR, FS, GS, RS, US, space,
      NEL and the no-break space; \<^verbatim>\<open>[^\S]\<close> is the same class\<close>
  "is_space c = (let n = code c in
     (9 \<le> n \<and> n \<le> 13) \<or> (28 \<le> n \<and> n \<le> 32) \<or> n = 133 \<or> n = 160)"

definition is_upper :: "char \<Rightarrow> bool" where
  \<comment> \<open>the class \<^verbatim>\<open>[A-Z]\<close>\<close>
  "is_upper c = (let n = code c in 65 \<le> n \<and> n \<le> 90)"

definition is_ascii :: "char \<Rightarrow> bool" where
  "is_ascii c = (code c < 128)"

definition starts_with :: "string \<Rightarrow> string \<Rightarrow> bool" where
  "starts_with p s = (take (length p) s = p)"

text \<open>
  \<^verbatim>\<open>re.sub("[...]+", rep, s)\<close> for a character class: every maximal run of characters of
  the class is replaced by \<open>rep\<close>.
\<close>

function sub_run :: "(char \<Rightarrow> bool) \<Rightarrow> string \<Rightarrow> string \<Rightarrow> string" where
  "sub_run P rep [] = []"
| "sub_run P rep (c # cs) =
     (if P c then rep @ sub_run P rep (dropWhile P cs) else c # sub_run P rep cs)"
  by pat_completeness auto
termination
  by (relation "measure (\<lambda>(P, rep, s). length s)")
     (auto simp: length_dropWhile_le less_Suc_eq_le)

text \<open>\<^verbatim>\<open>s.strip(chars)\<close>: characters of \<open>chars\<close> are removed at both ends.\<close>

definition py_strip :: "string \<Rightarrow> string \<Rightarrow> string" where
  "py_strip chars s =
     rev (dropWhile (\<lambda>c. c \<in> set chars) (rev (dropWhile (\<lambda>c. c \<in> set chars) s)))"

text \<open>
  \<^verbatim>\<open>s.lower()\<close>: the upper-case letters below 256 are \<^verbatim>\<open>A-Z\<close> and \<^verbatim>\<open>0xC0-0xDE\<close> without
  the multiplication sign \<^verbatim>\<open>0xD7\<close>; each one is 32 below its lower-case letter.
\<close>

definition lower_char :: "char \<Rightarrow> char" where
  "lower_char c = (let n = code c in
     if (65 \<le> n \<and> n \<le> 90) \<or> (192 \<le> n \<and> n \<le> 222 \<and> n \<noteq> 215) then char_of (n + 32) else c)"

definition py_lower :: "string \<Rightarrow> string" where
  "py_lower s = map lower_char s"

text \<open>\<^verbatim>\<open>s.split(",")\<close>: never empty, \<^verbatim>\<open>"".split(",") == [""]\<close>.\<close>

fun split_comma :: "string \<Rightarrow> string list" where
  "split_comma [] = [[]]"
| "split_comma (c # cs) =
     (case split_comma cs of
        [] \<Rightarrow> (if c = CHR '','' then [[], []] else [[c]])
      | p # ps \<Rightarrow> (if c = CHR '','' then [] # p # ps else (c # p) # ps))"

section \<open>The location hint (lines 177 to 191)\<close>

definition left_paren :: "string \<Rightarrow> nat option" where
  \<comment> \<open>\<^verbatim>\<open>(?:\(|\@ESCAPEDLEFTPARENTHESIS\@)\<close> at the head of the text: the length it takes\<close>
  "left_paren s =
     (if starts_with ''('' s then Some 1
      else if starts_with ''@ESCAPEDLEFTPARENTHESIS@'' s then Some 24
      else None)"

definition right_paren :: "string \<Rightarrow> nat option" where
  \<comment> \<open>\<^verbatim>\<open>(?:\)|\@ESCAPEDRIGHTPARENTHESIS\@)\<close> at the head of the text\<close>
  "right_paren s =
     (if starts_with '')'' s then Some 1
      else if starts_with ''@ESCAPEDRIGHTPARENTHESIS@'' s then Some 25
      else None)"

text \<open>
  \<^verbatim>\<open>.*(?:\)|...)\<close> at the head of the text, as the backtracking matcher runs it: \<^verbatim>\<open>.*\<close> is
  greedy and does not cross a line feed, so the closing mark taken is the last one of
  the line.  The result is the text left after the match.
\<close>

fun paren_body :: "string \<Rightarrow> string option" where
  "paren_body [] = None"
| "paren_body (c # cs) =
     (case (if c = CHR 0x0A then None else paren_body cs) of
        Some r \<Rightarrow> Some r
      | None \<Rightarrow> (case right_paren (c # cs) of
                   Some n \<Rightarrow> Some (drop n (c # cs))
                 | None \<Rightarrow> None))"

definition paren_match :: "string \<Rightarrow> string option" where
  \<comment> \<open>the whole pattern of line 181 at the head of the text: the text after the match\<close>
  "paren_match s =
     (case left_paren s of None \<Rightarrow> None | Some n \<Rightarrow> paren_body (drop n s))"

text \<open>Line 181: every match of the parenthesis pattern is replaced by one space.\<close>

function remove_parenthesis :: "string \<Rightarrow> string" where
  "remove_parenthesis [] = []"
| "remove_parenthesis (c # cs) =
     (case paren_match (c # cs) of
        Some r \<Rightarrow> CHR '' '' # remove_parenthesis r
      | None \<Rightarrow> c # remove_parenthesis cs)"
  by pat_completeness auto
termination
proof (relation "measure length")
  fix c :: char and cs r :: string
  assume m: "paren_match (c # cs) = Some r"
  have body: "paren_body s = Some t \<Longrightarrow> length t < length s" for s t
    by (induction s) (auto simp: right_paren_def split: option.splits if_splits)
  from m have "length r < length (c # cs)"
    by (auto simp: paren_match_def split: option.splits dest!: body)
  then show "(r, c # cs) \<in> measure length" by simp
qed auto

definition is_special :: "char \<Rightarrow> bool" where
  \<comment> \<open>the class \<^verbatim>\<open>[\-\[\]\{\}]\<close> of line 184\<close>
  "is_special c = (c \<in> set ''-[]{}'')"

definition is_newline :: "char \<Rightarrow> bool" where
  \<comment> \<open>the class \<^verbatim>\<open>[\n\r]\<close> of line 185\<close>
  "is_newline c = (c = CHR 0x0A \<or> c = CHR 0x0D)"

definition strip_leading_comma :: "string \<Rightarrow> string" where
  \<comment> \<open>line 191, \<^verbatim>\<open>^\s*,\s*[^\S]\<close> replaced by nothing: the pattern matches at the start
      only, and needs at least one space after the comma\<close>
  "strip_leading_comma s =
     (case dropWhile is_space s of
        [] \<Rightarrow> s
      | c # r \<Rightarrow> (if c = CHR '','' \<and> r \<noteq> [] \<and> is_space (hd r)
                  then dropWhile is_space r else s))"

text \<open>
  The hint of one address.  Line 188 (\<^verbatim>\<open>\s+\<close> replaced by one space) has no
  \<^verbatim>\<open>inplace=True\<close>: its result is dropped, and the column keeps its runs of spaces.
\<close>

definition geohint_of :: "string \<Rightarrow> string" where
  "geohint_of adr =
     strip_leading_comma
       (sub_run is_newline '', ''
         (sub_run is_special '' ''
           (remove_parenthesis adr)))"

section \<open>Segments of one record (lines 212 to 229)\<close>

definition unidecode :: "(char \<Rightarrow> string) \<Rightarrow> string \<Rightarrow> string" where
  \<comment> \<open>\<^verbatim>\<open>unidecode.unidecode(s, errors="ignore")\<close>: an ASCII character is kept, any other
      one is replaced by the entry of the library's table \<open>tr\<close> (empty when it has none)\<close>
  "unidecode tr s = concat (map (\<lambda>c. if is_ascii c then [c] else tr c) s)"

fun remove_copyright :: "string \<Rightarrow> string" where
  \<comment> \<open>\<^verbatim>\<open>decoded.replace("(c)", "")\<close>\<close>
  "remove_copyright [] = []"
| "remove_copyright (c # cs) =
     (if starts_with ''(c)'' (c # cs) then remove_copyright (drop 2 cs)
      else c # remove_copyright cs)"

definition remove_illegal :: "string \<Rightarrow> string" where
  \<comment> \<open>lines 216 to 218\<close>
  "remove_illegal s =
     filter (\<lambda>c. c \<noteq> CHR ''@'')
       (remove_copyright (filter (\<lambda>c. c \<noteq> CHR 0x22) s))"

definition cons_hd :: "char \<Rightarrow> string list \<Rightarrow> string list" where
  "cons_hd c ps = (case ps of [] \<Rightarrow> [[c]] | p # r \<Rightarrow> (c # p) # r)"

text \<open>
  Line 221, \<^verbatim>\<open>re.split(r"[A-Z]+: ", decoded)\<close>: a tag is a run of capitals followed by a
  colon and a space; the pieces between the tags are returned, the empty ones too.
\<close>

function split_tags :: "string \<Rightarrow> string list" where
  "split_tags [] = [[]]"
| "split_tags (c # cs) =
     (if is_upper c \<and> starts_with '': '' (dropWhile is_upper cs)
      then [] # split_tags (drop 2 (dropWhile is_upper cs))
      else cons_hd c (split_tags cs))"
  by pat_completeness auto
termination
  by (relation "measure length")
     (auto simp: less_Suc_eq_le intro: le_trans [OF diff_le_self length_dropWhile_le])

fun comma_unit :: "string \<Rightarrow> string option" where
  \<comment> \<open>\<^verbatim>\<open>\s?\,\<close> at the head of the text: the text after it\<close>
  "comma_unit [] = None"
| "comma_unit [c] = (if c = CHR '','' then Some [] else None)"
| "comma_unit (c # d # r) =
     (if is_space c \<and> d = CHR '','' then Some r
      else if c = CHR '','' then Some (d # r)
      else None)"

function comma_units :: "string \<Rightarrow> string" where
  \<comment> \<open>the further repetitions of \<^verbatim>\<open>(\s?\,)+\<close>, greedy: the text after the last one\<close>
  "comma_units s = (case comma_unit s of None \<Rightarrow> s | Some r \<Rightarrow> comma_units r)"
  by pat_completeness auto
termination
proof (relation "measure length")
  fix s r :: string
  assume "comma_unit s = Some r"
  then have "length r < length s"
    by (induction s rule: comma_unit.induct) (auto split: if_splits)
  then show "(r, s) \<in> measure length" by simp
qed auto

text \<open>Line 229, \<^verbatim>\<open>re.sub(r"(\s?\,)+", ",", elem)\<close>.\<close>

function factorize_commas :: "string \<Rightarrow> string" where
  "factorize_commas [] = []"
| "factorize_commas (c # cs) =
     (case comma_unit (c # cs) of
        Some r \<Rightarrow> CHR '','' # factorize_commas (comma_units r)
      | None \<Rightarrow> c # factorize_commas cs)"
  by pat_completeness auto
termination
proof (relation "measure length")
  fix c :: char and cs r :: string
  assume u: "comma_unit (c # cs) = Some r"
  have unit: "comma_unit s = Some t \<Longrightarrow> length t < length s" for s t
    by (induction s rule: comma_unit.induct) (auto split: if_splits)
  have units: "length (comma_units s) \<le> length s" for s
  proof (induction s rule: comma_units.induct)
    case (1 s)
    show ?case
    proof (cases "comma_unit s")
      case None
      then show ?thesis by (subst comma_units.simps) simp
    next
      case (Some t)
      with 1 have "length (comma_units t) \<le> length t" by simp
      moreover have "length t < length s" using Some by (rule unit)
      ultimately show ?thesis using Some by (subst comma_units.simps) simp
    qed
  qed
  from u have "length r < length (c # cs)" by (rule unit)
  moreover have "length (comma_units r) \<le> length r" by (rule units)
  ultimately show "(comma_units r, c # cs) \<in> measure length" by simp
qed auto

definition clean_elem :: "string \<Rightarrow> string" where
  \<comment> \<open>lines 226 and 229\<close>
  "clean_elem elem =
     factorize_commas (py_lower (py_strip [CHR '' '', CHR 0x0A, CHR 0x0D, CHR ''.'', CHR '';'', CHR '','', CHR '':''] elem))"

definition split_row :: "(char \<Rightarrow> string) \<Rightarrow> string \<Rightarrow> string list" where
  \<comment> \<open>lines 213 to 221: the pieces the loop of line 225 runs over\<close>
  "split_row tr hint = split_tags (remove_illegal (unidecode tr hint))"

definition normalize :: "(char \<Rightarrow> string) \<Rightarrow> string \<Rightarrow> string list" where
  \<comment> \<open>the segments of a raw address: the cleaned pieces that pass the test of line 231\<close>
  "normalize tr adr =
     filter (\<lambda>e. e \<noteq> []) (map clean_elem (split_row tr (geohint_of adr)))"

section \<open>Queries (lines 233 to 235 and their repetitions)\<close>

definition py_strip_ws :: "string \<Rightarrow> string" where
  \<comment> \<open>\<^verbatim>\<open>s.strip()\<close>\<close>
  "py_strip_ws s = rev (dropWhile is_space (rev (dropWhile is_space s)))"

definition is_unreserved :: "char \<Rightarrow> bool" where
  \<comment> \<open>the characters \<^verbatim>\<open>quote_plus\<close> leaves as they are: letters, digits and \<^verbatim>\<open>_.-~\<close>\<close>
  "is_unreserved c = (let n = code c in
     (48 \<le> n \<and> n \<le> 57) \<or> (65 \<le> n \<and> n \<le> 90) \<or> (97 \<le> n \<and> n \<le> 122) \<or> c \<in> set ''_.-~'')"

definition hex_digit :: "nat \<Rightarrow> char" where
  "hex_digit n = ''0123456789ABCDEF'' ! (n mod 16)"

definition percent :: "nat \<Rightarrow> string" where
  "percent b = [CHR ''%'', hex_digit (b div 16), hex_digit b]"

definition utf8 :: "char \<Rightarrow> nat list" where
  "utf8 c = (let n = code c in if n < 128 then [n] else [192 + n div 64, 128 + n mod 64])"

definition quote_plus :: "string \<Rightarrow> string" where
  "quote_plus s = concat (map (\<lambda>c.
     if is_unreserved c then [c]
     else if c = CHR '' '' then ''+''
     else concat (map percent (utf8 c))) s)"

text \<open>
  A query before it is encoded: its text, and the \<^verbatim>\<open>countrycodes\<close> entry when the
  dictionary has one.  The country code is \<^verbatim>\<open>None\<close> when the detector found no country,
  and \<^verbatim>\<open>urlencode\<close> then writes the word \<^verbatim>\<open>None\<close>.
\<close>

datatype query = Plain string | Restricted string "string option"

fun text_of :: "query \<Rightarrow> string" where
  "text_of (Plain q) = q"
| "text_of (Restricted q country_code) = q"

fun urlencode :: "query \<Rightarrow> string" where
  "urlencode (Plain q) = ''q='' @ quote_plus q @ ''&format=json''"
| "urlencode (Restricted q country_code) =
     ''q='' @ quote_plus q @ ''&countrycodes=''
       @ quote_plus (case country_code of None \<Rightarrow> ''None'' | Some cc \<Rightarrow> cc)
       @ ''&format=json''"

definition encode :: "query \<Rightarrow> string" where
  \<comment> \<open>\<^verbatim>\<open>re.sub(r"[\+]+", "+", urlencode(...)).strip("+")\<close>\<close>
  "encode q = py_strip ''+'' (sub_run (\<lambda>c. c = CHR ''+'') ''+'' (urlencode q))"

section \<open>The collaborators that are not in \<^verbatim>\<open>contact.py\<close>\<close>

text \<open>
  Modelled from the spec: \<^verbatim>\<open>data.nominatim.Nominatim.fetch_cache_or_web\<close> is imported and
  not part of the file.  The spec (4.5) gives a fetch two ways to fail: no path to the
  service, and a valid answer with no result.  A fetcher is a parameter of the model; it
  reads and changes a state \<open>'w\<close> (the cache and the network).
\<close>

datatype 'r fetched = ServiceUnavailable | Results "'r list"

type_synonym ('r, 'w) fetcher = "'w \<Rightarrow> string \<Rightarrow> 'r fetched \<times> 'w"

text \<open>
  Modelled from the spec: \<^verbatim>\<open>data.spellcheck.GeoSpellChecker.get_country_code_from_text\<close>
  is imported and not part of the file.  The spec (4.2) makes it a total function from a
  segment to a country code, if any, and the text without the country.  A detector is a
  parameter of the model.
\<close>

type_synonym detector = "string \<Rightarrow> string option \<times> string"

section \<open>One segment (lines 231 to 293)\<close>

definition attempt :: "('r, 'w) fetcher \<Rightarrow> 'w \<Rightarrow> query \<Rightarrow> 'r option \<times> 'w" where
  \<comment> \<open>\<^verbatim>\<open>try: out = nominatim.fetch_cache_or_web(query)[0]\<close> under a bare \<^verbatim>\<open>except\<close>:
      an exception of the fetch and the \<^verbatim>\<open>IndexError\<close> of an empty answer end the same way\<close>
  "attempt fetch w q =
     (case fetch w (encode q) of
        (Results (out # outs), w') \<Rightarrow> (Some out, w')
      | (Results [], w') \<Rightarrow> (None, w')
      | (ServiceUnavailable, w') \<Rightarrow> (None, w'))"

definition sub_query :: "string list \<Rightarrow> nat \<Rightarrow> string" where
  \<comment> \<open>lines 263 to 267; \<^verbatim>\<open>sub_elems[-j]\<close> is the element at \<^verbatim>\<open>len(sub_elems) - j\<close>, in
      range for the \<open>i\<close> and \<open>j\<close> of the two loops\<close>
  "sub_query sub_elems i =
     foldl (\<lambda>q j. py_strip_ws (sub_elems ! (length sub_elems - j)) @ '','' @ q)
       (py_strip_ws (last sub_elems))
       [2..<length sub_elems - i]"

fun try_windows ::
  "('r, 'w) fetcher \<Rightarrow> string option \<Rightarrow> string list \<Rightarrow> nat list \<Rightarrow> 'w \<Rightarrow> 'r option \<times> 'w" where
  \<comment> \<open>the loop of line 262 over the values of \<open>i\<close> left; \<^verbatim>\<open>break\<close> at the first result\<close>
  "try_windows fetch country_code sub_elems [] w = (None, w)"
| "try_windows fetch country_code sub_elems (i # rest) w =
     (case attempt fetch w (Restricted (sub_query sub_elems i) country_code) of
        (Some out, w') \<Rightarrow> (Some out, w')
      | (None, w') \<Rightarrow> try_windows fetch country_code sub_elems rest w')"

text \<open>
  The state of the loop over the segments of one record: the list \<^verbatim>\<open>result\<close>, the
  variable \<^verbatim>\<open>flag_accurate\<close>, and the state of the fetcher.
\<close>

type_synonym ('r, 'w) row_state = "'r list \<times> bool \<times> 'w"

definition resolve_elem ::
  "('r, 'w) fetcher \<Rightarrow> detector \<Rightarrow> string \<Rightarrow> ('r, 'w) row_state \<Rightarrow> ('r, 'w) row_state" where
  \<comment> \<open>lines 232 to 293, for a segment that passed the test of line 231\<close>
  "resolve_elem fetch cc elem st =
     (case st of (result, flag_accurate, w) \<Rightarrow>
      (case attempt fetch w (Plain elem) of
         (Some out, w1) \<Rightarrow> (result @ [out], True, w1)
       | (None, w1) \<Rightarrow>
          (case cc elem of (country_code, filtered) \<Rightarrow>
           (case attempt fetch w1 (Restricted filtered country_code) of
              (Some out, w2) \<Rightarrow> (result @ [out], flag_accurate, w2)
            | (None, w2) \<Rightarrow>
               (let sub_elems = split_comma filtered in
                case try_windows fetch country_code sub_elems [0..<length sub_elems - 1] w2 of
                  (Some out, w3) \<Rightarrow> (result @ [out], flag_accurate, w3)
                | (None, w3) \<Rightarrow>
                   (case attempt fetch w3 (Restricted (py_strip_ws (hd sub_elems)) country_code) of
                      (Some out, w4) \<Rightarrow> (result @ [out], flag_accurate, w4)
                    | (None, w4) \<Rightarrow> (result, flag_accurate, w4)))))))"

fun resolve_elems ::
  "('r, 'w) fetcher \<Rightarrow> detector \<Rightarrow> string list \<Rightarrow> ('r, 'w) row_state \<Rightarrow> ('r, 'w) row_state" where
  \<comment> \<open>the loop of line 225\<close>
  "resolve_elems fetch cc [] st = st"
| "resolve_elems fetch cc (elem # rest) st =
     (let e = clean_elem elem in
      if e \<noteq> [] then resolve_elems fetch cc rest (resolve_elem fetch cc e st)
      else resolve_elems fetch cc rest st)"

definition resolve_row ::
  "(char \<Rightarrow> string) \<Rightarrow> ('r, 'w) fetcher \<Rightarrow> detector \<Rightarrow> string \<Rightarrow> 'w \<Rightarrow> ('r, 'w) row_state" where
  \<comment> \<open>lines 210 to 293: the work on one record, from its hint\<close>
  "resolve_row tr fetch cc hint w = resolve_elems fetch cc (split_row tr hint) ([], False, w)"

section \<open>The data frame and the pass over its records (lines 146 to 303)\<close>

text \<open>
  A data frame is its row labels and its columns by name; a cell is a string, the JSON
  text of a result list (\<^verbatim>\<open>json.dumps(result)\<close>), a boolean, or missing (\<^verbatim>\<open>NaN\<close>).
\<close>

datatype 'r cell = NaN | Str string | Json "'r list" | Flag bool

record 'r frame =
  index :: "int list"
  cols :: "string \<rightharpoonup> 'r cell list"

datatype error = KeyError | NotAString | UnboundLocalError

text \<open>
  A progress message is \<^verbatim>\<open>(current, min, max, label)\<close>; the fifth component of the
  tuple is the same text, \<^verbatim>\<open>"Fetch geolocation data"\<close>, in every message of the pass.
\<close>

datatype label = Downloading | Unreachable | Cancel

type_synonym progress_msg = "nat \<times> nat \<times> nat \<times> label"

text \<open>
  The state of a call: the caller's frame (the pass works on it in place and returns
  it), the state of the fetcher, the messages emitted so far, the loop variable
  \<^verbatim>\<open>index\<close> once it is bound, and the exception that ended the call, if any.
\<close>

record ('r, 'w) run =
  data :: "'r frame"
  world :: 'w
  emitted :: "progress_msg list"
  index_var :: "nat option"
  raised :: "error option"

definition emit :: "bool \<Rightarrow> progress_msg \<Rightarrow> ('r, 'w) run \<Rightarrow> ('r, 'w) run" where
  \<comment> \<open>\<^verbatim>\<open>if progress is not None: progress.emit(msg)\<close>\<close>
  "emit progress msg s = (if progress then s\<lparr>emitted := emitted s @ [msg]\<rparr> else s)"

definition replace_str :: "(string \<Rightarrow> string) \<Rightarrow> 'r cell list \<Rightarrow> 'r cell list" where
  \<comment> \<open>\<^verbatim>\<open>Series.replace(..., regex=True, inplace=True)\<close>: the string cells are rewritten\<close>
  "replace_str f cells = map (\<lambda>c. case c of Str s \<Rightarrow> Str (f s) | _ \<Rightarrow> c) cells"

definition set_cell :: "'r frame \<Rightarrow> nat \<Rightarrow> string \<Rightarrow> 'r cell \<Rightarrow> 'r frame" where
  \<comment> \<open>\<^verbatim>\<open>data.loc[index, name] = v\<close>; a column that does not exist yet is created, missing
      in every other row\<close>
  "set_cell d i name v =
     d\<lparr>cols := (cols d)(name \<mapsto>
       (case cols d name of
          None \<Rightarrow> replicate (length (index d)) NaN
        | Some cells \<Rightarrow> cells)[i := v])\<rparr>"

definition cell_at :: "'r frame \<Rightarrow> string \<Rightarrow> nat \<Rightarrow> 'r cell" where
  \<comment> \<open>what a reader of the frame finds in a row under a name; nothing under a name the
      frame does not have\<close>
  "cell_at d name i = (case cols d name of None \<Rightarrow> NaN | Some cells \<Rightarrow> cells ! i)"

definition geo_cell :: "'r list \<Rightarrow> 'r cell" where
  \<comment> \<open>lines 294 to 297: the JSON text of the results, or the mark of no result\<close>
  "geo_cell result = (if result \<noteq> [] then Json result else Str ''not found'')"

definition store_row :: "'r frame \<Rightarrow> nat \<Rightarrow> 'r list \<Rightarrow> bool \<Rightarrow> 'r frame" where
  \<comment> \<open>lines 294 to 298\<close>
  "store_row d i result flag_accurate =
     set_cell (set_cell d i ''geoID'' (geo_cell result)) i ''exactlocation'' (Flag flag_accurate)"

definition kill :: "(nat \<Rightarrow> bool) option \<Rightarrow> nat \<Rightarrow> bool" where
  \<comment> \<open>\<^verbatim>\<open>killswitch is not None and killswitch.is_set()\<close>, read before record \<open>i\<close>\<close>
  "kill killswitch i = (case killswitch of None \<Rightarrow> False | Some is_set \<Rightarrow> is_set i)"

text \<open>
  The loop of line 200 over the rows left, each with its label and its hint as
  \<^verbatim>\<open>iterrows\<close> read them.  The kill switch is read once before each record:
  \<open>killswitch = Some is_set\<close> gives the value \<open>is_set i\<close> read before record \<open>i\<close>.
  A hint that is no string makes \<^verbatim>\<open>unidecode\<close> raise.
\<close>

fun rows_loop ::
  "(char \<Rightarrow> string) \<Rightarrow> ('r, 'w) fetcher \<Rightarrow> detector \<Rightarrow> bool \<Rightarrow> (nat \<Rightarrow> bool) option \<Rightarrow> nat
     \<Rightarrow> (nat \<times> 'r cell) list \<Rightarrow> ('r, 'w) run \<Rightarrow> ('r, 'w) run" where
  "rows_loop tr fetch cc progress killswitch entries [] s = s"
| "rows_loop tr fetch cc progress killswitch entries ((i, hint) # rest) s =
     (let s1 = emit progress (i, 0, entries, Downloading) (s\<lparr>index_var := Some i\<rparr>) in
      if kill killswitch i
      then emit progress (i, 0, i, Cancel) s1
      else (case hint of
              Str h \<Rightarrow>
                (case resolve_row tr fetch cc h (world s1) of
                   (result, flag_accurate, w') \<Rightarrow>
                     rows_loop tr fetch cc progress killswitch entries rest
                       (s1\<lparr>data := store_row (data s1) i result flag_accurate, world := w'\<rparr>))
            | _ \<Rightarrow> s1\<lparr>raised := Some NotAString\<rparr>))"

text \<open>
  \<^verbatim>\<open>get_geoID(data, progress, killswitch)\<close>.  \<open>probe_ok\<close> says whether the request of
  line 160 went through; \<open>progress\<close> says whether a progress signal was given.
\<close>

definition get_geoID ::
  "(char \<Rightarrow> string) \<Rightarrow> ('r, 'w) fetcher \<Rightarrow> detector \<Rightarrow> bool \<Rightarrow> bool \<Rightarrow> (nat \<Rightarrow> bool) option
     \<Rightarrow> 'r frame \<Rightarrow> 'w \<Rightarrow> ('r, 'w) run" where
  "get_geoID tr fetch cc probe_ok progress killswitch d w =
     (let entries = length (index d);
          s0 = \<lparr>data = d, world = w, emitted = [], index_var = None, raised = None\<rparr>;
          s1 = emit progress (0, 0, entries, Downloading) s0;
          s2 = (if probe_ok then s1 else emit progress (0, 0, entries, Unreachable) s1)
      in case cols d ''adr'' of
           None \<Rightarrow> s2\<lparr>raised := Some KeyError\<rparr>
         | Some adr \<Rightarrow>
             (let hints = replace_str geohint_of adr;
                  d1 = d\<lparr>cols := (cols d)(''geohint'' \<mapsto> hints)\<rparr>;
                  d2 = d1\<lparr>index := map int [0..<entries]\<rparr>;
                  s3 = rows_loop tr fetch cc progress killswitch entries
                         (zip [0..<entries] hints) (s2\<lparr>data := d2\<rparr>)
              in if raised s3 \<noteq> None then s3
                 else if progress then
                   (case index_var s3 of
                      None \<Rightarrow> s3\<lparr>raised := Some UnboundLocalError\<rparr>
                    | Some i \<Rightarrow> emit progress (i, entries, entries, Cancel) s3)
                 else s3))"

section \<open>The candidates of a segment, in the order of the code\<close>

text \<open>
  The queries of lines 233, 251, 270 and 284, listed in the order in which the nested
  \<^verbatim>\<open>try\<close> blocks reach them.
\<close>

definition candidates :: "detector \<Rightarrow> string \<Rightarrow> query list" where
  "candidates cc elem =
     (case cc elem of (country_code, filtered) \<Rightarrow>
        (let sub_elems = split_comma filtered in
         Plain elem # Restricted filtered country_code
           # map (\<lambda>i. Restricted (sub_query sub_elems i) country_code) [0..<length sub_elems - 1]
           @ [Restricted (py_strip_ws (hd sub_elems)) country_code]))"

text \<open>
  How a list of candidates is run: the first answer with a result ends the run, an
  empty answer and an unreachable service both pass to the next candidate.
  \<open>first_result\<close> is what the run returns, \<open>attempted\<close> the candidates it sends.
\<close>

fun first_result :: "('r, 'w) fetcher \<Rightarrow> query list \<Rightarrow> 'w \<Rightarrow> 'r option \<times> 'w" where
  "first_result fetch [] w = (None, w)"
| "first_result fetch (q # qs) w =
     (case fetch w (encode q) of
        (Results (out # outs), w') \<Rightarrow> (Some out, w')
      | (Results [], w') \<Rightarrow> first_result fetch qs w'
      | (ServiceUnavailable, w') \<Rightarrow> first_result fetch qs w')"

fun attempted :: "('r, 'w) fetcher \<Rightarrow> query list \<Rightarrow> 'w \<Rightarrow> query list" where
  "attempted fetch [] w = []"
| "attempted fetch (q # qs) w =
     q # (case fetch w (encode q) of
            (Results (out # outs), w') \<Rightarrow> []
          | (Results [], w') \<Rightarrow> attempted fetch qs w'
          | (ServiceUnavailable, w') \<Rightarrow> attempted fetch qs w')"

definition succeeds :: "('r, 'w) fetcher \<Rightarrow> 'w \<Rightarrow> query \<Rightarrow> bool" where
  \<comment> \<open>the query, sent in state \<open>w\<close>, comes back with a result\<close>
  "succeeds fetch w q =
     (case fetch w (encode q) of (Results (out # outs), w') \<Rightarrow> True | _ \<Rightarrow> False)"

definition logged :: "('r, 'w) fetcher \<Rightarrow> ('r, 'w \<times> string list) fetcher" where
  \<comment> \<open>the same fetcher, keeping the list of the encoded queries it was given\<close>
  "logged fetch = (\<lambda>(w, sent) q. case fetch w q of (r, w') \<Rightarrow> (r, (w', sent @ [q])))"

definition unavailable_as_empty :: "('r, 'w) fetcher \<Rightarrow> ('r, 'w) fetcher" where
  \<comment> \<open>the same fetcher, with an empty answer wherever the service is unreachable\<close>
  "unavailable_as_empty fetch =
     (\<lambda>w q. case fetch w q of (ServiceUnavailable, w') \<Rightarrow> (Results [], w') | r \<Rightarrow> r)"

definition specificity :: "query \<Rightarrow> nat" where
  \<comment> \<open>the number of comma-separated components of the text of a query\<close>
  "specificity q = length (split_comma (text_of q))"

fun join_comma :: "string list \<Rightarrow> string" where
  \<comment> \<open>\<^verbatim>\<open>",".join(parts)\<close>\<close>
  "join_comma [] = []"
| "join_comma [p] = p"
| "join_comma (p # q # ps) = p @ '','' @ join_comma (q # ps)"

section \<open>Well-formed frames and processed records\<close>

definition is_str :: "'r cell \<Rightarrow> bool" where
  "is_str c = (case c of Str s \<Rightarrow> True | _ \<Rightarrow> False)"

definition cols_ok :: "'r frame \<Rightarrow> bool" where
  \<comment> \<open>every column has one cell per row\<close>
  "cols_ok d =
     (\<forall>name. case cols d name of None \<Rightarrow> True | Some cells \<Rightarrow> length cells = length (index d))"

definition wf_frame :: "'r frame \<Rightarrow> bool" where
  \<comment> \<open>a frame as \<^verbatim>\<open>cleanup_contact\<close> leaves it: the column \<^verbatim>\<open>adr\<close> exists and holds strings\<close>
  "wf_frame d =
     (cols_ok d \<and> (case cols d ''adr'' of None \<Rightarrow> False | Some cells \<Rightarrow> list_all is_str cells))"

definition processed :: "(nat \<Rightarrow> bool) option \<Rightarrow> nat \<Rightarrow> nat" where
  \<comment> \<open>the number of records of \<open>n\<close> that the loop works on: all of them, or those before
      the first one at which the kill switch is found set\<close>
  "processed killswitch n = length (takeWhile (\<lambda>i. \<not> kill killswitch i) [0..<n])"

text \<open>
  The state of the fetcher after the loop has worked, in order, on the records of these
  hints, started in state \<open>w\<close>.  The state at the start of record \<open>j\<close> is the state
  after the first \<open>j\<close> records.
\<close>

fun world_after ::
  "(char \<Rightarrow> string) \<Rightarrow> ('r, 'w) fetcher \<Rightarrow> detector \<Rightarrow> 'r cell list \<Rightarrow> 'w \<Rightarrow> 'w" where
  "world_after tr fetch cc [] w = w"
| "world_after tr fetch cc (Str h # hints) w =
     world_after tr fetch cc hints (snd (snd (resolve_row tr fetch cc h w)))"
| "world_after tr fetch cc (c # hints) w = w"

definition closed_without_result :: "('r, 'w) fetcher \<Rightarrow> ('w \<Rightarrow> bool) \<Rightarrow> bool" where
  \<comment> \<open>in the states of \<open>I\<close> no query comes back with a result, and a fetch leaves the
      state in \<open>I\<close>\<close>
  "closed_without_result fetch I =
     (\<forall>w q. I w \<longrightarrow>
        I (snd (fetch w q))
        \<and> (case fst (fetch w q) of Results (out # outs) \<Rightarrow> False | _ \<Rightarrow> True))"

fun is_outcome :: "'r cell \<Rightarrow> 'r cell \<Rightarrow> bool" where
  \<comment> \<open>the cells \<^verbatim>\<open>geoID\<close> and \<^verbatim>\<open>exactlocation\<close> of a record hold an outcome: a list of
      results with its flag, or the mark of no result with the flag \<^verbatim>\<open>False\<close>\<close>
  "is_outcome (Json result) (Flag b) = (result \<noteq> [])"
| "is_outcome (Str s) (Flag b) = (s = ''not found'' \<and> \<not> b)"
| "is_outcome g e = False"

text \<open>The frame on which the loop of line 200 starts: the hint column added (lines 178
  to 191), the rows renumbered (line 197).\<close>

definition prepared :: "'r frame \<Rightarrow> 'r cell list \<Rightarrow> 'r frame" where
  "prepared d adr =
     d\<lparr>cols := (cols d)(''geohint'' \<mapsto> replace_str geohint_of adr),
       index := map int [0..<length (index d)]\<rparr>"

section \<open>Segments that normalization leaves alone\<close>

definition decoded_of :: "(char \<Rightarrow> string) \<Rightarrow> string \<Rightarrow> string" where
  \<comment> \<open>the variable \<^verbatim>\<open>decoded\<close> as line 221 finds it: the hint of lines 178 to 191 after
      lines 213 to 218\<close>
  "decoded_of tr adr = remove_illegal (unidecode tr (geohint_of adr))"

definition hint_before_188 :: "string \<Rightarrow> string" where
  \<comment> \<open>the hint after lines 181 to 185, as line 188 finds it\<close>
  "hint_before_188 adr =
     sub_run is_newline '', '' (sub_run is_special '' '' (remove_parenthesis adr))"

definition factorize_spaces :: "string \<Rightarrow> string" where
  \<comment> \<open>the replacement of line 188, \<^verbatim>\<open>\s+\<close> by one space\<close>
  "factorize_spaces s = sub_run is_space '' '' s"

fun no_space_pair :: "string \<Rightarrow> bool" where
  \<comment> \<open>no two characters of the class \<^verbatim>\<open>\s\<close> stand side by side\<close>
  "no_space_pair (c # d # r) = (\<not> (is_space c \<and> is_space d) \<and> no_space_pair (d # r))"
| "no_space_pair s = True"

fun no_paren_pair :: "string \<Rightarrow> bool" where
  \<comment> \<open>no opening parenthesis has a closing one after it\<close>
  "no_paren_pair [] = True"
| "no_paren_pair (c # cs) = (\<not> (c = CHR ''('' \<and> CHR '')'' \<in> set cs) \<and> no_paren_pair cs)"

fun tidy_commas :: "string \<Rightarrow> bool" where
  \<comment> \<open>no comma stands directly after a space or after another comma\<close>
  "tidy_commas [] = True"
| "tidy_commas [c] = True"
| "tidy_commas (c # d # r) =
     (\<not> (d = CHR '','' \<and> (is_space c \<or> c = CHR '','')) \<and> tidy_commas (d # r))"

definition plain_char :: "char \<Rightarrow> bool" where
  \<comment> \<open>an ASCII character that no step of the normalization rewrites on its own: no
      capital, no \<^verbatim>\<open>@\<close>, no double quote, no dash, bracket or brace, no line break\<close>
  "plain_char c =
     (is_ascii c \<and> \<not> is_upper c \<and> \<not> is_special c \<and> \<not> is_newline c
      \<and> c \<notin> set [CHR ''@'', CHR 0x22])"

definition settled :: "string \<Rightarrow> bool" where
  \<comment> \<open>a segment in settled form: not empty, of plain characters, without a pair of
      parentheses, with no character of \<^verbatim>\<open>" \n\r.;,:"\<close> at either end, and with tidy
      commas\<close>
  "settled s =
     (s \<noteq> [] \<and> list_all plain_char s \<and> no_paren_pair s
      \<and> hd s \<notin> set [CHR '' '', CHR 0x0A, CHR 0x0D, CHR ''.'', CHR '';'', CHR '','', CHR '':'']
      \<and> last s \<notin> set [CHR '' '', CHR 0x0A, CHR 0x0D, CHR ''.'', CHR '';'', CHR '','', CHR '':'']
      \<and> tidy_commas s)"

section \<open>A cache in front of a service\<close>

text \<open>
  Modelled from the spec: \<^verbatim>\<open>data.nominatim.Nominatim\<close> is not part of the file.  The spec
  (4.4, 4.6) describes cache-or-fetch: a hit answers from the cache and makes no call; a
  miss makes one call to the service and stores its answer.  \<open>calls\<close> lists the queries
  that went to the service.
\<close>

record 'r nominatim =
  cache :: "(string \<times> 'r list) list"
  network :: "string \<Rightarrow> 'r fetched"
  calls :: "string list"

definition fetch_cache_or_web :: "('r, 'r nominatim) fetcher" where
  "fetch_cache_or_web s q =
     (case map_of (cache s) q of
        Some rs \<Rightarrow> (Results rs, s)
      | None \<Rightarrow>
          (case network s q of
             ServiceUnavailable \<Rightarrow> (ServiceUnavailable, s\<lparr>calls := calls s @ [q]\<rparr>)
           | Results rs \<Rightarrow> (Results rs, s\<lparr>cache := (q, rs) # cache s, calls := calls s @ [q]\<rparr>)))"

section \<open>Sample inputs\<close>

definition no_table :: "char \<Rightarrow> string" where
  \<comment> \<open>a transliteration table with no entry\<close>
  "no_table c = []"

definition no_country :: detector where
  \<comment> \<open>a detector that finds no country\<close>
  "no_country elem = (None, elem)"

definition only_a :: "(nat, unit) fetcher" where
  \<comment> \<open>a service that knows the place \<^verbatim>\<open>a\<close> and nothing else\<close>
  "only_a w q = (if q = ''q=a&format=json'' then Results [1] else Results [], w)"

definition nothing :: "(nat, unit) fetcher" where
  \<comment> \<open>a service with no result for any query\<close>
  "nothing w q = (Results [], w)"

definition one_row :: "int \<Rightarrow> string \<Rightarrow> nat frame" where
  \<comment> \<open>a frame of one record, with its label and its address\<close>
  "one_row l a = \<lparr>index = [l], cols = [''adr'' \<mapsto> [Str a]]\<rparr>"

definition two_rows :: "string \<Rightarrow> string \<Rightarrow> nat frame" where
  "two_rows a b = \<lparr>index = [0, 1], cols = [''adr'' \<mapsto> [Str a, Str b]]\<rparr>"

definition no_rows :: "nat frame" where
  "no_rows = \<lparr>index = [], cols = [''adr'' \<mapsto> []]\<rparr>"

definition back_online :: "nat nominatim" where
  \<comment> \<open>an empty cache in front of a service that answers every query\<close>
  "back_online = \<lparr>cache = [], network = (\<lambda>q. Results [1]), calls = []\<rparr>"

definition flaky :: "nat nominatim" where
  \<comment> \<open>an empty cache in front of a service that cannot be reached for the plain query
      of \<^verbatim>\<open>a\<close> and answers every other query\<close>
  "flaky = \<lparr>cache = [],
            network = (\<lambda>q. if q = ''q=a&format=json'' then ServiceUnavailable else Results [1]),
            calls = []\<rparr>"

definition offline :: "nat nominatim" where
  \<comment> \<open>an empty cache in front of a service that cannot be reached\<close>
  "offline = \<lparr>cache = [], network = (\<lambda>q. ServiceUnavailable), calls = []\<rparr>"

definition cut_off :: "nat nominatim \<Rightarrow> bool" where
  \<comment> \<open>the states with an empty cache and a service that cannot be reached\<close>
  "cut_off s = (cache s = [] \<and> (\<forall>q. network s q = ServiceUnavailable))"

definition plus_minus_only :: "char \<Rightarrow> string" where
  \<comment> \<open>a transliteration table with one entry, the one of the plus-minus sign\<close>
  "plus_minus_only c = (if c = CHR 0xB1 then ''+-'' else [])"

definition set_before_second :: "(nat \<Rightarrow> bool) option" where
  \<comment> \<open>a kill switch found set before the second record, and not before the first\<close>
  "set_before_second = Some (\<lambda>i. i = 1)"

section \<open>The nested tries and the list of candidates\<close>

lemma attempt_first_result: "attempt fetch w q = first_result fetch [q] w"
  by (simp add: attempt_def split: prod.splits fetched.splits list.splits)

lemma first_result_append:
  "first_result fetch (xs @ ys) w =
     (case first_result fetch xs w of
        (Some out, w') \<Rightarrow> (Some out, w')
      | (None, w') \<Rightarrow> first_result fetch ys w')"
  by (induction xs arbitrary: w) (auto split: prod.splits fetched.splits list.splits option.splits)

lemma first_result_Cons:
  "first_result fetch (q # qs) w =
     (case attempt fetch w q of
        (Some out, w') \<Rightarrow> (Some out, w')
      | (None, w') \<Rightarrow> first_result fetch qs w')"
  by (simp add: attempt_def split: prod.splits fetched.splits list.splits)

lemma try_windows_first_result:
  "try_windows fetch country_code sub_elems is w =
     first_result fetch (map (\<lambda>i. Restricted (sub_query sub_elems i) country_code) is) w"
proof (induction "is" arbitrary: w)
  case Nil
  show ?case by simp
next
  case (Cons i rest)
  show ?case
    unfolding list.map first_result_Cons try_windows.simps
    by (simp add: Cons.IH split: prod.splits option.splits)
qed

lemma succeeds_attempt: "succeeds fetch w q = (fst (attempt fetch w q) \<noteq> None)"
  by (simp add: succeeds_def attempt_def split: prod.splits fetched.splits list.splits)

lemma resolve_elem_first_result:
  "resolve_elem fetch cc elem (result, flag, w) =
     (case first_result fetch (candidates cc elem) w of
        (Some out, w') \<Rightarrow> (result @ [out], flag \<or> succeeds fetch w (Plain elem), w')
      | (None, w') \<Rightarrow> (result, flag, w'))"
proof -
  obtain country_code filtered where cc: "cc elem = (country_code, filtered)"
    by (cases "cc elem")
  show ?thesis
    unfolding resolve_elem_def candidates_def cc prod.case Let_def
      first_result_Cons first_result_append try_windows_first_result succeeds_attempt
    by (simp add: attempt_first_result [symmetric] split: prod.splits option.splits)
qed

lemma logged_apply:
  "logged fetch (w, sent) q = (fst (fetch w q), snd (fetch w q), sent @ [q])"
  by (simp add: logged_def split: prod.splits)

lemma first_result_logged:
  "first_result (logged fetch) qs (w, sent) =
     (fst (first_result fetch qs w),
      snd (first_result fetch qs w), sent @ map encode (attempted fetch qs w))"
proof (induction qs arbitrary: w sent)
  case Nil
  show ?case by simp
next
  case (Cons q qs)
  show ?case
    by (cases "fetch w (encode q)")
       (auto simp: logged_apply Cons.IH split: fetched.splits list.splits)
qed

lemma succeeds_logged: "succeeds (logged fetch) (w, sent) q = succeeds fetch w q"
  by (simp add: succeeds_def logged_apply split: prod.splits fetched.splits list.splits)

lemma attempted_prefix: "prefix (attempted fetch qs w) qs"
  by (induction qs arbitrary: w) (auto split: prod.splits fetched.splits list.splits)

lemma split_comma_not_Nil: "split_comma s \<noteq> []"
  by (induction s) (auto split: list.splits)

lemma length_candidates:
  "cc elem = (country_code, filtered) \<Longrightarrow>
     length (candidates cc elem) = length (split_comma filtered) + 2"
  using split_comma_not_Nil [of filtered]
  by (cases "split_comma filtered") (simp_all add: candidates_def)

lemma split_comma_append:
  "split_comma (a @ CHR '','' # b) = split_comma a @ split_comma b"
proof (induction a)
  case Nil
  show ?case using split_comma_not_Nil [of b] by (cases "split_comma b") simp_all
next
  case (Cons c a)
  show ?case
    using Cons.IH split_comma_not_Nil [of a] split_comma_not_Nil [of b]
    by (cases "split_comma a") (auto split: list.splits)
qed

lemma split_comma_no_comma: "CHR '','' \<notin> set s \<Longrightarrow> split_comma s = [s]"
  by (induction s) auto

lemma split_comma_parts: "p \<in> set (split_comma s) \<Longrightarrow> CHR '','' \<notin> set p"
proof (induction s arbitrary: p)
  case Nil
  then show ?case by simp
next
  case (Cons c s)
  then show ?case
    by (cases "split_comma s") (auto split: if_splits)
qed

lemma set_py_strip_ws: "set (py_strip_ws s) \<subseteq> set s"
  by (auto simp: py_strip_ws_def dest!: set_dropWhileD)

lemma strip_part_no_comma:
  "p \<in> set (split_comma s) \<Longrightarrow> CHR '','' \<notin> set (py_strip_ws p)"
  using split_comma_parts set_py_strip_ws by blast

lemma split_comma_join:
  "ps \<noteq> [] \<Longrightarrow> \<forall>p \<in> set ps. CHR '','' \<notin> set p \<Longrightarrow> split_comma (join_comma ps) = ps"
proof (induction ps rule: join_comma.induct)
  case 1
  then show ?case by simp
next
  case (2 p)
  then show ?case by (simp add: split_comma_no_comma)
next
  case (3 p q ps)
  then show ?case by (simp add: split_comma_append split_comma_no_comma)
qed

text \<open>The inner loop of lines 266 and 267, by its upper bound.\<close>

lemma inner_loop_join:
  assumes "2 \<le> m" and "m \<le> Suc (length sub_elems)" and "sub_elems \<noteq> []"
  shows "foldl (\<lambda>q j. py_strip_ws (sub_elems ! (length sub_elems - j)) @ '','' @ q)
           (py_strip_ws (last sub_elems)) [2..<m]
         = join_comma (map py_strip_ws (drop (Suc (length sub_elems) - m) sub_elems))"
  using assms
proof (induction m)
  case 0
  then show ?case by simp
next
  case (Suc m)
  show ?case
  proof (cases "m = 1")
    case True
    have "drop (length sub_elems - 1) sub_elems = [last sub_elems]"
      using Suc.prems(3)
      by (metis append_butlast_last_id append_eq_conv_conj length_butlast)
    with True show ?thesis by simp
  next
    case False
    with Suc.prems have m: "2 \<le> m" "m \<le> length sub_elems" by simp_all
    then have ih: "foldl (\<lambda>q j. py_strip_ws (sub_elems ! (length sub_elems - j)) @ '','' @ q)
           (py_strip_ws (last sub_elems)) [2..<m]
         = join_comma (map py_strip_ws (drop (Suc (length sub_elems) - m) sub_elems))"
      using Suc.IH Suc.prems(3) by simp
    have lt: "length sub_elems - m < length sub_elems" using m by simp
    have d: "drop (length sub_elems - m) sub_elems
             = sub_elems ! (length sub_elems - m) # drop (Suc (length sub_elems) - m) sub_elems"
      using Cons_nth_drop_Suc [OF lt] m by (simp add: Suc_diff_le)
    have ne: "drop (Suc (length sub_elems) - m) sub_elems \<noteq> []"
      using m by simp
    then obtain y ys where y: "drop (Suc (length sub_elems) - m) sub_elems = y # ys"
      by (cases "drop (Suc (length sub_elems) - m) sub_elems") auto
    have "[2..<Suc m] = [2..<m] @ [m]" using m by simp
    then show ?thesis
      using ih d y by simp
  qed
qed

lemma sub_query_join:
  assumes "Suc i < length sub_elems"
  shows "sub_query sub_elems i = join_comma (map py_strip_ws (drop (Suc i) sub_elems))"
proof -
  have ne: "sub_elems \<noteq> []" using assms by auto
  have "Suc (length sub_elems) - (length sub_elems - i) = Suc i" using assms by simp
  with inner_loop_join [of "length sub_elems - i" sub_elems] assms ne
  show ?thesis unfolding sub_query_def by simp
qed

lemma specificity_sub_query:
  assumes "Suc i < length (split_comma s)"
  shows "length (split_comma (sub_query (split_comma s) i)) = length (split_comma s) - Suc i"
proof -
  let ?ps = "map py_strip_ws (drop (Suc i) (split_comma s))"
  have ne: "?ps \<noteq> []" using assms by simp
  have nc: "\<forall>p \<in> set ?ps. CHR '','' \<notin> set p"
    using strip_part_no_comma [of _ s] by (auto dest: in_set_dropD)
  show ?thesis
    unfolding sub_query_join [OF assms] split_comma_join [OF ne nc] by simp
qed

lemma specificity_first: "length (split_comma (py_strip_ws (hd (split_comma s)))) = 1"
proof -
  have "hd (split_comma s) \<in> set (split_comma s)"
    using split_comma_not_Nil by simp
  then have "CHR '','' \<notin> set (py_strip_ws (hd (split_comma s)))"
    by (rule strip_part_no_comma)
  then show ?thesis by (simp add: split_comma_no_comma)
qed

text \<open>
  Claim C3.  For a residual text of components \<open>c[0..n-1]\<close> the window stage is said to
  build, for \<open>i\<close> from 0 to \<open>n-2\<close>, the query of the last \<open>n-i\<close> components, from all
  \<open>n\<close> components down to two.  The comment of lines 264 and 265 says the same
  (\<^verbatim>\<open>n = length - i > 1\<close>), but the inner range stops one step earlier: for the three
  components of \<^verbatim>\<open>a,b,c\<close> the windows built are the last two components and then the
  last one alone, never all three.
\<close>
theorem windows_at_three_components:
  "map (sub_query (split_comma ''a,b,c'')) [0..<length (split_comma ''a,b,c'') - 1]
     = [''b,c'', ''c'']"
  by code_simp

lemma sent_resolve_elem:
  "snd (snd (snd (resolve_elem (logged fetch) cc elem (result, flag, w, sent))))
     = sent @ map encode (attempted fetch (candidates cc elem) w)"
  by (simp add: resolve_elem_first_result first_result_logged split: prod.splits option.splits)

lemma descending_windows:
  "sorted_wrt (\<lambda>p q. q \<le> p) (map (\<lambda>i. n - Suc i) [0..<m])"
  by (auto simp: sorted_wrt_map sorted_wrt_iff_nth_less intro: diff_le_mono2)

lemma specificity_candidates:
  assumes "cc elem = (country_code, filtered)"
  shows "map specificity (candidates cc elem)
           = length (split_comma elem) # length (split_comma filtered)
               # map (\<lambda>i. length (split_comma filtered) - Suc i) [0..<length (split_comma filtered) - 1]
               @ [1]"
proof -
  let ?sub = "split_comma filtered"
  have w: "map (specificity \<circ> (\<lambda>i. Restricted (sub_query ?sub i) country_code)) [0..<length ?sub - 1]
           = map (\<lambda>i. length ?sub - Suc i) [0..<length ?sub - 1]"
    by (rule map_cong) (auto simp: specificity_def specificity_sub_query)
  show ?thesis
    using w by (simp add: candidates_def assms Let_def specificity_def specificity_first)
qed

text \<open>
  Claim C2, as the code has it.  Let the residual text of a segment split on commas into
  \<open>n\<close> components.  The queries sent for the segment are an initial part of its list of
  candidates, which has \<open>n + 2\<close> entries (the plain query, the residual text under the
  country code, \<open>n - 1\<close> windows, the first component alone): so at most \<open>n + 2\<close>
  queries are tried, not \<open>2 + (n - 1)\<close>.  When the detector returns a text with no more
  components than the segment, a later candidate never has more components than an
  earlier one.
\<close>
theorem fallback_candidates_order:
  assumes "cc elem = (country_code, filtered)"
      and "length (split_comma filtered) \<le> length (split_comma elem)"
  shows "prefix (snd (snd (snd (resolve_elem (logged fetch) cc elem (result, flag, w, [])))))
           (map encode (candidates cc elem))
       \<and> length (snd (snd (snd (resolve_elem (logged fetch) cc elem (result, flag, w, [])))))
           \<le> length (split_comma filtered) + 2
       \<and> sorted_wrt (\<lambda>p q. specificity q \<le> specificity p) (candidates cc elem)"
proof -
  let ?sent = "snd (snd (snd (resolve_elem (logged fetch) cc elem (result, flag, w, []))))"
  let ?n = "length (split_comma filtered)"
  have sent: "?sent = map encode (attempted fetch (candidates cc elem) w)"
    by (simp add: sent_resolve_elem)
  have p: "prefix ?sent (map encode (candidates cc elem))"
    unfolding sent by (rule map_mono_prefix) (rule attempted_prefix)
  have "length ?sent \<le> length (map encode (candidates cc elem))"
    using p by (rule prefix_length_le)
  then have l: "length ?sent \<le> ?n + 2"
    by (simp add: length_candidates [where cc = cc and elem = elem, OF assms(1)])
  have "Suc 0 \<le> ?n" using split_comma_not_Nil [of filtered] by (simp add: Suc_le_eq)
  then have "sorted_wrt (\<lambda>p q. q \<le> p) (map specificity (candidates cc elem))"
    unfolding specificity_candidates [where cc = cc and elem = elem, OF assms(1)]
    using assms(2) descending_windows [of ?n "?n - 1"]
    by (auto simp: sorted_wrt_append)
  then have s: "sorted_wrt (\<lambda>p q. specificity q \<le> specificity p) (candidates cc elem)"
    by (simp add: sorted_wrt_map)
  from p l s show ?thesis by blast
qed

theorem fallback_candidates_order_witness:
  "no_country ''a, b'' = (None, ''a, b'')
   \<and> length (split_comma ''a, b'') \<le> length (split_comma ''a, b'')
   \<and> prefix (snd (snd (snd (resolve_elem (logged only_a) no_country ''a, b'' ([], False, (), [])))))
        (map encode (candidates no_country ''a, b''))
   \<and> length (snd (snd (snd (resolve_elem (logged only_a) no_country ''a, b'' ([], False, (), [])))))
        \<le> length (split_comma ''a, b'') + 2
   \<and> sorted_wrt (\<lambda>p q. specificity q \<le> specificity p) (candidates no_country ''a, b'')"
proof -
  have a: "no_country ''a, b'' = (None, ''a, b'')" by (simp add: no_country_def)
  have b: "length (split_comma ''a, b'') \<le> length (split_comma ''a, b'')" by simp
  show ?thesis
    using a fallback_candidates_order [where cc = no_country and elem = "''a, b''"
        and fetch = only_a and result = "[]" and flag = False and w = "()", OF a b]
    by simp
qed

text \<open>
  The bound \<open>2 + (n - 1)\<close> of claim C2 fails on the segment \<^verbatim>\<open>a, b\<close> when nothing is
  found: \<open>n = 2\<close>, and four different queries are sent.
\<close>
theorem fallback_bound_counterexample:
  "\<not> length (remdups (snd (snd (snd
        (resolve_elem (logged nothing) no_country ''a, b'' ([], False, (), []))))))
      \<le> 2 + (length (split_comma (snd (no_country ''a, b''))) - 1)"
  by code_simp

lemma first_result_unavailable_as_empty:
  "first_result (unavailable_as_empty fetch) qs w = first_result fetch qs w"
proof (induction qs arbitrary: w)
  case Nil
  show ?case by simp
next
  case (Cons q qs)
  show ?case
    by (cases "fetch w (encode q)")
       (auto simp: unavailable_as_empty_def Cons.IH [unfolded unavailable_as_empty_def]
             split: fetched.splits list.splits)
qed

lemma succeeds_unavailable_as_empty:
  "succeeds (unavailable_as_empty fetch) w q = succeeds fetch w q"
  by (simp add: succeeds_def unavailable_as_empty_def split: prod.splits fetched.splits list.splits)

text \<open>
  Claim C4, as the code has it.  The candidates of a segment are run in order; the first
  answer with a result is recorded and ends the run, and every failure passes to the
  next candidate.  The bare \<^verbatim>\<open>except\<close> clauses do not tell an unreachable service from an
  empty answer: a fetcher that reports an empty answer wherever the service is
  unreachable gives the same results, the same flag and the same state.
\<close>
theorem failures_advance_alike:
  "resolve_elem (logged fetch) cc elem (result, flag, w, []) =
     (case first_result fetch (candidates cc elem) w of
        (Some out, w') \<Rightarrow>
          (result @ [out], flag \<or> succeeds fetch w (Plain elem), w',
           map encode (attempted fetch (candidates cc elem) w))
      | (None, w') \<Rightarrow>
          (result, flag, w', map encode (attempted fetch (candidates cc elem) w)))
   \<and> resolve_elem (unavailable_as_empty fetch) cc elem (result, flag, w)
       = resolve_elem fetch cc elem (result, flag, w)"
proof
  show "resolve_elem (logged fetch) cc elem (result, flag, w, []) =
     (case first_result fetch (candidates cc elem) w of
        (Some out, w') \<Rightarrow>
          (result @ [out], flag \<or> succeeds fetch w (Plain elem), w',
           map encode (attempted fetch (candidates cc elem) w))
      | (None, w') \<Rightarrow>
          (result, flag, w', map encode (attempted fetch (candidates cc elem) w)))"
    by (simp add: resolve_elem_first_result first_result_logged succeeds_logged
          split: prod.splits option.splits)
  show "resolve_elem (unavailable_as_empty fetch) cc elem (result, flag, w)
       = resolve_elem fetch cc elem (result, flag, w)"
    by (simp add: resolve_elem_first_result first_result_unavailable_as_empty
          succeeds_unavailable_as_empty split: prod.splits option.splits)
qed

text \<open>
  Against claim C4: with an empty cache and a service that is unreachable for the plain
  query of \<^verbatim>\<open>a\<close>, the segment \<^verbatim>\<open>a\<close> is not given up.  The next candidate goes to the
  service as well, and its result is recorded.
\<close>
theorem unavailable_then_network_counterexample:
  "network flaky ''q=a&format=json'' = ServiceUnavailable
   \<and> fst (resolve_elem fetch_cache_or_web no_country ''a'' ([], False, flaky)) = [1]
   \<and> calls (snd (snd (resolve_elem fetch_cache_or_web no_country ''a'' ([], False, flaky))))
       = [''q=a&format=json'', ''q=a&countrycodes=None&format=json'']"
  by code_simp

section \<open>Cells of the frame\<close>

lemma emit_fields [simp]:
  "data (emit progress msg s) = data s"
  "world (emit progress msg s) = world s"
  "raised (emit progress msg s) = raised s"
  "index_var (emit progress msg s) = index_var s"
  by (simp_all add: emit_def)

lemma set_cell_index [simp]: "index (set_cell d i name v) = index d"
  by (simp add: set_cell_def)

lemma set_cell_other: "name' \<noteq> name \<Longrightarrow> cols (set_cell d i name v) name' = cols d name'"
  by (simp add: set_cell_def)

lemma set_cell_cols_ok: "cols_ok d \<Longrightarrow> cols_ok (set_cell d i name v)"
  by (auto simp: cols_ok_def set_cell_def split: option.splits)

lemma cell_at_set_cell:
  assumes "cols_ok d" and "i < length (index d)" and "j < length (index d)"
  shows "cell_at (set_cell d i name v) name' j
           = (if name' = name \<and> j = i then v else cell_at d name' j)"
proof (cases "cols d name")
  case None
  with assms show ?thesis by (simp add: cell_at_def set_cell_def)
next
  case (Some cells)
  with assms(1) have "length cells = length (index d)"
    by (auto simp: cols_ok_def split: option.splits dest: spec [of _ name])
  with Some assms show ?thesis by (simp add: cell_at_def set_cell_def)
qed

lemma store_row_index [simp]: "index (store_row d i result flag) = index d"
  by (simp add: store_row_def)

lemma store_row_other:
  "name \<noteq> ''geoID'' \<Longrightarrow> name \<noteq> ''exactlocation'' \<Longrightarrow>
     cols (store_row d i result flag) name = cols d name"
  by (simp add: store_row_def set_cell_other)

lemma store_row_cols_ok: "cols_ok d \<Longrightarrow> cols_ok (store_row d i result flag)"
  by (simp add: store_row_def set_cell_cols_ok)

lemma cell_at_store_row:
  assumes "cols_ok d" and "i < length (index d)" and "j < length (index d)"
  shows "cell_at (store_row d i result flag) name j
           = (if j = i \<and> name = ''geoID'' then geo_cell result
              else if j = i \<and> name = ''exactlocation'' then Flag flag
              else cell_at d name j)"
  using assms
  by (simp add: store_row_def cell_at_set_cell set_cell_cols_ok)

section \<open>The loop over the records\<close>

lemma rows_loop_index:
  "index (data (rows_loop tr fetch cc progress killswitch entries rows s)) = index (data s)"
proof (induction rows arbitrary: s)
  case Nil
  show ?case by simp
next
  case (Cons row rows)
  obtain i hint where row: "row = (i, hint)" by (cases row)
  show ?case
    unfolding row
    by (cases hint) (simp_all add: Let_def Cons.IH split: prod.splits)
qed

lemma rows_loop_other:
  assumes "name \<noteq> ''geoID''" and "name \<noteq> ''exactlocation''"
  shows "cols (data (rows_loop tr fetch cc progress killswitch entries rows s)) name
           = cols (data s) name"
proof (induction rows arbitrary: s)
  case Nil
  show ?case by simp
next
  case (Cons row rows)
  obtain i hint where row: "row = (i, hint)" by (cases row)
  show ?case
    unfolding row using assms
    by (cases hint) (simp_all add: Let_def Cons.IH store_row_other split: prod.splits)
qed

lemma rows_loop_cols_ok:
  "cols_ok (data s) \<Longrightarrow>
     cols_ok (data (rows_loop tr fetch cc progress killswitch entries rows s))"
proof (induction rows arbitrary: s)
  case Nil
  then show ?case by simp
next
  case (Cons row rows)
  obtain i hint where row: "row = (i, hint)" by (cases row)
  show ?case
    unfolding row using Cons.prems
    by (cases hint) (simp_all add: Let_def Cons.IH store_row_cols_ok split: prod.splits)
qed

lemma rows_loop_raised:
  "raised s = None \<Longrightarrow> list_all (\<lambda>row. is_str (snd row)) rows \<Longrightarrow>
     raised (rows_loop tr fetch cc progress killswitch entries rows s) = None"
proof (induction rows arbitrary: s)
  case Nil
  then show ?case by simp
next
  case (Cons row rows)
  obtain i hint where row: "row = (i, hint)" by (cases row)
  show ?case
    unfolding row using Cons.prems
    by (cases hint) (simp_all add: Let_def Cons.IH row is_str_def split: prod.splits)
qed

lemma rows_loop_index_var_kept:
  "index_var s = Some a \<Longrightarrow>
     \<exists>b. index_var (rows_loop tr fetch cc progress killswitch entries rows s) = Some b"
proof (induction rows arbitrary: s a)
  case Nil
  then show ?case by simp
next
  case (Cons row rows)
  obtain i hint where row: "row = (i, hint)" by (cases row)
  have next_row: "\<exists>b. index_var (rows_loop tr fetch cc progress killswitch entries rows
      (emit progress (i, 0, entries, Downloading) (s\<lparr>index_var := Some i\<rparr>)
         \<lparr>data := d, world := w\<rparr>)) = Some b" for d w
    by (rule Cons.IH [of _ i]) simp
  show ?case
    unfolding row
    by (cases hint) (auto simp: Let_def next_row split: prod.splits)
qed

lemma rows_loop_index_var:
  assumes "rows \<noteq> []"
  shows "\<exists>b. index_var (rows_loop tr fetch cc progress killswitch entries rows s) = Some b"
proof -
  obtain i hint rest where rows: "rows = (i, hint) # rest"
    using assms by (cases rows) auto
  have next_row: "\<exists>b. index_var (rows_loop tr fetch cc progress killswitch entries rest
      (emit progress (i, 0, entries, Downloading) (s\<lparr>index_var := Some i\<rparr>)
         \<lparr>data := d, world := w\<rparr>)) = Some b" for d w
    by (rule rows_loop_index_var_kept [of _ i]) simp
  show ?thesis
    unfolding rows
    by (cases hint) (auto simp: Let_def next_row split: prod.splits)
qed

text \<open>The rows the loop works on: those before the first one at which it finds the switch set.\<close>

lemma rows_loop_untouched:
  assumes "j \<notin> fst ` set (takeWhile (\<lambda>row. \<not> kill killswitch (fst row)) rows)"
      and "j < length (index (data s))"
      and "cols_ok (data s)"
      and "list_all (\<lambda>row. fst row < length (index (data s))) rows"
  shows "cell_at (data (rows_loop tr fetch cc progress killswitch entries rows s)) name j
           = cell_at (data s) name j"
  using assms
proof (induction rows arbitrary: s)
  case Nil
  then show ?case by simp
next
  case (Cons row rows)
  obtain i hint where row: "row = (i, hint)" by (cases row)
  show ?case
  proof (cases "kill killswitch i")
    case True
    then show ?thesis by (simp add: row Let_def emit_def cell_at_def)
  next
    case False
    show ?thesis
    proof (cases hint)
      case (Str h)
      obtain result flag w' where r: "resolve_row tr fetch cc h
          (world (emit progress (i, 0, entries, Downloading) (s\<lparr>index_var := Some i\<rparr>))) = (result, flag, w')"
        by (metis prod_cases3)
      let ?s = "emit progress (i, 0, entries, Downloading) (s\<lparr>index_var := Some i\<rparr>)
                  \<lparr>data := store_row (data s) i result flag, world := w'\<rparr>"
      have step: "rows_loop tr fetch cc progress killswitch entries (row # rows) s
                  = rows_loop tr fetch cc progress killswitch entries rows ?s"
        using False r by (simp add: row Str Let_def)
      have ji: "j \<noteq> i" using Cons.prems(1) False by (auto simp: row)
      have "cell_at (data (rows_loop tr fetch cc progress killswitch entries rows ?s)) name j
            = cell_at (data ?s) name j"
        using Cons.prems False
        by (intro Cons.IH) (auto simp: row store_row_cols_ok)
      also have "\<dots> = cell_at (data s) name j"
        using Cons.prems ji by (simp add: row cell_at_store_row)
      finally show ?thesis unfolding step .
    qed (simp_all add: row Let_def False)
  qed
qed

lemma rows_loop_stored:
  assumes "(i, Str h) \<in> set (takeWhile (\<lambda>row. \<not> kill killswitch (fst row)) rows)"
      and "distinct (map fst rows)"
      and "cols_ok (data s)"
      and "list_all (\<lambda>row. fst row < length (index (data s))) rows"
      and "list_all (\<lambda>row. is_str (snd row)) rows"
  shows "\<exists>w. cell_at (data (rows_loop tr fetch cc progress killswitch entries rows s)) ''geoID'' i
               = geo_cell (fst (resolve_row tr fetch cc h w))
           \<and> cell_at (data (rows_loop tr fetch cc progress killswitch entries rows s)) ''exactlocation'' i
               = Flag (fst (snd (resolve_row tr fetch cc h w)))"
  using assms
proof (induction rows arbitrary: s)
  case Nil
  then show ?case by simp
next
  case (Cons row rows)
  obtain i' hint where row: "row = (i', hint)" by (cases row)
  have nk: "\<not> kill killswitch i'"
    using Cons.prems(1) by (auto simp: row split: if_splits)
  obtain h' where hint: "hint = Str h'"
    using Cons.prems(5) by (cases hint) (auto simp: row is_str_def)
  let ?s1 = "emit progress (i', 0, entries, Downloading) (s\<lparr>index_var := Some i'\<rparr>)"
  obtain result flag w' where r: "resolve_row tr fetch cc h' (world s) = (result, flag, w')"
    by (metis prod_cases3)
  let ?s = "?s1\<lparr>data := store_row (data s) i' result flag, world := w'\<rparr>"
  have step: "rows_loop tr fetch cc progress killswitch entries (row # rows) s
              = rows_loop tr fetch cc progress killswitch entries rows ?s"
    using nk r by (simp add: row hint Let_def)
  have ok: "cols_ok (data ?s)" using Cons.prems(3) by (simp add: store_row_cols_ok)
  have bound: "list_all (\<lambda>row. fst row < length (index (data ?s))) rows"
    using Cons.prems(4) by simp
  have i'n: "i' < length (index (data s))" using Cons.prems(4) by (simp add: row)
  show ?case
  proof (cases "(i, Str h) = row")
    case True
    then have eq: "i' = i" "h' = h" by (simp_all add: row hint)
    have "i \<notin> fst ` set rows" using Cons.prems(2) by (auto simp: row eq)
    then have out: "i \<notin> fst ` set (takeWhile (\<lambda>row. \<not> kill killswitch (fst row)) rows)"
      by (auto dest: set_takeWhileD)
    have keep: "cell_at (data (rows_loop tr fetch cc progress killswitch entries rows ?s)) name i
                = cell_at (data ?s) name i" for name
      using out i'n ok bound by (intro rows_loop_untouched) (simp_all add: eq)
    have "cell_at (data ?s) ''geoID'' i = geo_cell (fst (resolve_row tr fetch cc h (world s)))"
      using Cons.prems(3) i'n r by (simp add: cell_at_store_row eq)
    moreover have "cell_at (data ?s) ''exactlocation'' i
                   = Flag (fst (snd (resolve_row tr fetch cc h (world s))))"
      using Cons.prems(3) i'n r by (simp add: cell_at_store_row eq)
    ultimately show ?thesis unfolding step keep by blast
  next
    case False
    then have "(i, Str h) \<in> set (takeWhile (\<lambda>row. \<not> kill killswitch (fst row)) rows)"
      using Cons.prems(1) nk by (auto simp: row split: if_splits)
    moreover have "distinct (map fst rows)" using Cons.prems(2) by simp
    moreover note ok bound
    moreover have "list_all (\<lambda>row. is_str (snd row)) rows" using Cons.prems(5) by simp
    ultimately show ?thesis
      unfolding step by (rule Cons.IH)
  qed
qed

section \<open>One record\<close>

subsection \<open>The flag of one record\<close>

lemma resolve_elem_flag:
  "fst (snd (resolve_elem fetch cc elem (result, flag, w)))
     = (flag \<or> succeeds fetch w (Plain elem))"
  by (simp add: resolve_elem_def succeeds_attempt Let_def split: prod.splits option.splits)

lemma resolve_elems_flag:
  "fst (snd (resolve_elems fetch cc elems (result, flag, w))) =
     (flag \<or> (\<exists>pre e post. elems = pre @ e # post \<and> clean_elem e \<noteq> []
        \<and> succeeds fetch (snd (snd (resolve_elems fetch cc pre (result, flag, w))))
              (Plain (clean_elem e))))"
proof (induction elems arbitrary: result flag w)
  case Nil
  show ?case by simp
next
  case (Cons x xs)
  show ?case
  proof (cases "clean_elem x = []")
    case True
    have "(\<exists>pre e post. x # xs = pre @ e # post \<and> clean_elem e \<noteq> []
             \<and> succeeds fetch (snd (snd (resolve_elems fetch cc pre (result, flag, w))))
                   (Plain (clean_elem e)))
          = (\<exists>pre e post. xs = pre @ e # post \<and> clean_elem e \<noteq> []
             \<and> succeeds fetch (snd (snd (resolve_elems fetch cc pre (result, flag, w))))
                   (Plain (clean_elem e)))"
      (is "?L = ?R")
    proof
      assume ?L
      then obtain pre e post where h: "x # xs = pre @ e # post" "clean_elem e \<noteq> []"
        "succeeds fetch (snd (snd (resolve_elems fetch cc pre (result, flag, w)))) (Plain (clean_elem e))"
        by blast
      from h(1) h(2) True obtain pre' where p: "pre = x # pre'" "xs = pre' @ e # post"
        by (cases pre) auto
      with h True show ?R by auto
    next
      assume ?R
      then obtain pre e post where h: "xs = pre @ e # post" "clean_elem e \<noteq> []"
        "succeeds fetch (snd (snd (resolve_elems fetch cc pre (result, flag, w)))) (Plain (clean_elem e))"
        by blast
      have "x # xs = (x # pre) @ e # post" using h(1) by simp
      moreover have "resolve_elems fetch cc (x # pre) (result, flag, w)
                     = resolve_elems fetch cc pre (result, flag, w)"
        using True by simp
      ultimately show ?L using h(2,3) by metis
    qed
    then show ?thesis using True Cons.IH [of result flag w] by simp
  next
    case False
    obtain r1 f1 w1 where st: "resolve_elem fetch cc (clean_elem x) (result, flag, w) = (r1, f1, w1)"
      by (metis prod_cases3)
    have f1: "f1 = (flag \<or> succeeds fetch w (Plain (clean_elem x)))"
      using resolve_elem_flag [of fetch cc "clean_elem x" result flag w] st by simp
    have "(\<exists>pre e post. x # xs = pre @ e # post \<and> clean_elem e \<noteq> []
             \<and> succeeds fetch (snd (snd (resolve_elems fetch cc pre (result, flag, w))))
                   (Plain (clean_elem e)))
          = (succeeds fetch w (Plain (clean_elem x))
             \<or> (\<exists>pre e post. xs = pre @ e # post \<and> clean_elem e \<noteq> []
             \<and> succeeds fetch (snd (snd (resolve_elems fetch cc pre (r1, f1, w1))))
                   (Plain (clean_elem e))))"
      (is "?L = (?A \<or> ?R)")
    proof
      assume ?L
      then obtain pre e post where h: "x # xs = pre @ e # post" "clean_elem e \<noteq> []"
        "succeeds fetch (snd (snd (resolve_elems fetch cc pre (result, flag, w)))) (Plain (clean_elem e))"
        by blast
      show "?A \<or> ?R"
      proof (cases pre)
        case Nil
        with h show ?thesis by simp
      next
        case (Cons y pre')
        with h(1) have p: "y = x" "xs = pre' @ e # post" by simp_all
        have "resolve_elems fetch cc pre (result, flag, w) = resolve_elems fetch cc pre' (r1, f1, w1)"
          using False st by (simp add: Cons p)
        with h p show ?thesis by metis
      qed
    next
      assume "?A \<or> ?R"
      then show ?L
      proof
        assume ?A
        then have "x # xs = [] @ x # xs \<and> clean_elem x \<noteq> []
          \<and> succeeds fetch (snd (snd (resolve_elems fetch cc [] (result, flag, w)))) (Plain (clean_elem x))"
          using False by simp
        then show ?L by blast
      next
        assume ?R
        then obtain pre e post where h: "xs = pre @ e # post" "clean_elem e \<noteq> []"
          "succeeds fetch (snd (snd (resolve_elems fetch cc pre (r1, f1, w1)))) (Plain (clean_elem e))"
          by blast
        have "x # xs = (x # pre) @ e # post" using h(1) by simp
        moreover have "resolve_elems fetch cc (x # pre) (result, flag, w)
                       = resolve_elems fetch cc pre (r1, f1, w1)"
          using False st by simp
        ultimately show ?L using h(2,3) by metis
      qed
    qed
    then show ?thesis
      using False st f1 Cons.IH [of r1 f1 w1] by auto
  qed
qed

lemma resolve_row_flag:
  "fst (snd (resolve_row tr fetch cc hint w)) =
     (\<exists>pre e post. split_row tr hint = pre @ e # post \<and> clean_elem e \<noteq> []
        \<and> succeeds fetch (snd (snd (resolve_elems fetch cc pre ([], False, w))))
              (Plain (clean_elem e)))"
  unfolding resolve_row_def by (subst resolve_elems_flag) simp

subsection \<open>A flag is set only beside a result\<close>

lemma resolve_elem_result:
  "resolve_elem fetch cc elem (result, flag, w) = (result', flag', w') \<Longrightarrow>
     (flag \<longrightarrow> result \<noteq> []) \<Longrightarrow> (flag' \<longrightarrow> result' \<noteq> [])"
  by (auto simp: resolve_elem_first_result split: prod.splits option.splits)

lemma resolve_elems_result:
  "resolve_elems fetch cc elems (result, flag, w) = (result', flag', w') \<Longrightarrow>
     (flag \<longrightarrow> result \<noteq> []) \<Longrightarrow> (flag' \<longrightarrow> result' \<noteq> [])"
proof (induction elems arbitrary: result flag w)
  case Nil
  then show ?case by simp
next
  case (Cons x xs)
  show ?case
  proof (cases "clean_elem x = []")
    case True
    with Cons.prems Cons.IH [of result flag w] show ?thesis by simp
  next
    case False
    obtain r1 f1 w1 where st: "resolve_elem fetch cc (clean_elem x) (result, flag, w) = (r1, f1, w1)"
      by (metis prod_cases3)
    have "f1 \<longrightarrow> r1 \<noteq> []" using st Cons.prems(2) by (rule resolve_elem_result)
    moreover have "resolve_elems fetch cc xs (r1, f1, w1) = (result', flag', w')"
      using Cons.prems(1) False st by simp
    ultimately show ?thesis using Cons.IH [of r1 f1 w1] by blast
  qed
qed

lemma resolve_row_outcome:
  "is_outcome (geo_cell (fst (resolve_row tr fetch cc h w)))
              (Flag (fst (snd (resolve_row tr fetch cc h w))))"
proof -
  obtain result flag w' where r: "resolve_row tr fetch cc h w = (result, flag, w')"
    by (metis prod_cases3)
  then have "flag \<longrightarrow> result \<noteq> []"
    unfolding resolve_row_def by (rule resolve_elems_result) simp
  then show ?thesis by (auto simp: r geo_cell_def)
qed

subsection \<open>A service that never has a result\<close>

lemma first_result_never:
  "\<forall>w q. \<not> succeeds fetch w q \<Longrightarrow> fst (first_result fetch qs w) = None"
proof (induction qs arbitrary: w)
  case Nil
  show ?case by simp
next
  case (Cons q qs)
  from Cons.prems have "\<not> succeeds fetch w q" by blast
  then show ?case
    using Cons.IH [OF Cons.prems]
    by (cases "fetch w (encode q)") (auto simp: succeeds_def split: fetched.splits list.splits)
qed

lemma resolve_elems_never:
  assumes "\<forall>w q. \<not> succeeds fetch w q"
  shows "fst (resolve_elems fetch cc elems (result, flag, w)) = result
       \<and> fst (snd (resolve_elems fetch cc elems (result, flag, w))) = flag"
proof (induction elems arbitrary: w)
  case Nil
  show ?case by simp
next
  case (Cons x xs)
  obtain w' where "resolve_elem fetch cc (clean_elem x) (result, flag, w) = (result, flag, w')"
    using first_result_never [OF assms, of "candidates cc (clean_elem x)" w]
    by (cases "first_result fetch (candidates cc (clean_elem x)) w")
       (simp add: resolve_elem_first_result)
  then show ?case using Cons.IH [of w] Cons.IH [of w'] by (simp add: Let_def)
qed

lemma resolve_row_never:
  assumes "\<forall>w q. \<not> succeeds fetch w q"
  shows "geo_cell (fst (resolve_row tr fetch cc h w)) = Str ''not found''"
    and "fst (snd (resolve_row tr fetch cc h w)) = False"
  using resolve_elems_never [OF assms, of cc "split_row tr h" "[]" False w]
  by (simp_all add: resolve_row_def geo_cell_def)

section \<open>The whole pass\<close>

subsection \<open>The rows of a well-formed frame\<close>

lemma takeWhile_zip_fst:
  "length xs = length ys \<Longrightarrow>
     takeWhile (\<lambda>row. P (fst row)) (zip xs ys) = zip (takeWhile P xs) ys"
  by (induction xs ys rule: list_induct2) simp_all

lemma takeWhile_upt: "takeWhile P [0..<n] = [0..<length (takeWhile P [0..<n])]"
proof -
  have "takeWhile P [0..<n] = take (length (takeWhile P [0..<n])) [0..<n]"
    by (rule takeWhile_eq_take)
  also have "\<dots> = [0..<min (length (takeWhile P [0..<n])) n]"
    by (simp add: take_upt min_def)
  also have "min (length (takeWhile P [0..<n])) n = length (takeWhile P [0..<n])"
    using length_takeWhile_le [of P "[0..<n]"] by simp
  finally show ?thesis .
qed

lemma processed_le: "processed killswitch n \<le> n"
  unfolding processed_def using length_takeWhile_le [of _ "[0..<n]"] by simp

lemma worked_rows:
  assumes "length hints = n"
  shows "takeWhile (\<lambda>row. \<not> kill killswitch (fst row)) (zip [0..<n] hints)
           = zip [0..<processed killswitch n] hints"
proof -
  have "takeWhile (\<lambda>row. \<not> kill killswitch (fst row)) (zip [0..<n] hints)
        = zip (takeWhile (\<lambda>i. \<not> kill killswitch i) [0..<n]) hints"
    using assms by (intro takeWhile_zip_fst) simp
  also have "takeWhile (\<lambda>i. \<not> kill killswitch i) [0..<n] = [0..<processed killswitch n]"
    unfolding processed_def by (rule takeWhile_upt)
  finally show ?thesis .
qed

lemma worked_row_mem:
  assumes "length hints = n" and "j < processed killswitch n"
  shows "(j, hints ! j) \<in> set (takeWhile (\<lambda>row. \<not> kill killswitch (fst row)) (zip [0..<n] hints))"
proof -
  have "j < n" using assms(2) processed_le [of killswitch n] by simp
  then show ?thesis
    unfolding worked_rows [OF assms(1)] using assms
    by (auto simp: in_set_zip intro!: exI [of _ j])
qed

lemma worked_row_fst:
  assumes "length hints = n"
  shows "fst ` set (takeWhile (\<lambda>row. \<not> kill killswitch (fst row)) (zip [0..<n] hints))
           = {0..<processed killswitch n}"
proof -
  have "map fst (zip [0..<processed killswitch n] hints) = [0..<processed killswitch n]"
    using assms processed_le [of killswitch n] by (simp add: map_fst_zip_take)
  then have "set (map fst (zip [0..<processed killswitch n] hints)) = {0..<processed killswitch n}"
    by simp
  then show ?thesis unfolding worked_rows [OF assms] by simp
qed

lemma replace_str_length [simp]: "length (replace_str f cells) = length cells"
  by (simp add: replace_str_def)

lemma replace_str_nth:
  "j < length cells \<Longrightarrow> cells ! j = Str a \<Longrightarrow> replace_str f cells ! j = Str (f a)"
  by (simp add: replace_str_def)

lemma replace_str_all: "list_all is_str cells \<Longrightarrow> list_all is_str (replace_str f cells)"
  by (induction cells) (auto simp: replace_str_def is_str_def split: cell.splits)

lemma wf_frame_adr:
  assumes "wf_frame d"
  obtains adr where "cols d ''adr'' = Some adr" and "list_all is_str adr"
    and "length adr = length (index d)"
proof -
  from assms obtain adr where a: "cols d ''adr'' = Some adr" "list_all is_str adr"
    by (auto simp: wf_frame_def split: option.splits)
  from assms have "cols_ok d" by (simp add: wf_frame_def)
  with a(1) have "length adr = length (index d)"
    by (auto simp: cols_ok_def split: option.splits dest: spec [of _ "''adr''"])
  with a show ?thesis by (rule that)
qed

lemma prepared_cols_ok:
  "cols_ok d \<Longrightarrow> length adr = length (index d) \<Longrightarrow> cols_ok (prepared d adr)"
  by (auto simp: cols_ok_def prepared_def split: option.splits)

lemma prepared_cell_at:
  "name \<noteq> ''geohint'' \<Longrightarrow> cell_at (prepared d adr) name j = cell_at d name j"
  by (simp add: cell_at_def prepared_def)

lemma get_geoID_loop:
  assumes "cols d ''adr'' = Some adr"
  obtains s0 where "data s0 = prepared d adr" and "world s0 = w" and "raised s0 = None"
    and "index_var s0 = None"
    and "data (get_geoID tr fetch cc probe_ok progress killswitch d w)
           = data (rows_loop tr fetch cc progress killswitch (length (index d))
                    (zip [0..<length (index d)] (replace_str geohint_of adr)) s0)"
    and "world (get_geoID tr fetch cc probe_ok progress killswitch d w)
           = world (rows_loop tr fetch cc progress killswitch (length (index d))
                    (zip [0..<length (index d)] (replace_str geohint_of adr)) s0)"
    and "raised (get_geoID tr fetch cc probe_ok progress killswitch d w)
           = (case raised (rows_loop tr fetch cc progress killswitch (length (index d))
                    (zip [0..<length (index d)] (replace_str geohint_of adr)) s0) of
                Some e \<Rightarrow> Some e
              | None \<Rightarrow>
                 if progress \<and> index_var (rows_loop tr fetch cc progress killswitch (length (index d))
                    (zip [0..<length (index d)] (replace_str geohint_of adr)) s0) = None
                 then Some UnboundLocalError else None)"
proof -
  let ?n = "length (index d)"
  let ?s1 = "emit progress (0, 0, ?n, Downloading)
               \<lparr>data = d, world = w, emitted = [], index_var = None, raised = None\<rparr>"
  let ?s2 = "if probe_ok then ?s1 else emit progress (0, 0, ?n, Unreachable) ?s1"
  let ?s0 = "?s2\<lparr>data := prepared d adr\<rparr>"
  show ?thesis
  proof (rule that [of ?s0])
    show "data ?s0 = prepared d adr" by simp
    show "world ?s0 = w" by simp
    show "raised ?s0 = None" by simp
    show "index_var ?s0 = None" by simp
    show "data (get_geoID tr fetch cc probe_ok progress killswitch d w)
           = data (rows_loop tr fetch cc progress killswitch ?n
                    (zip [0..<?n] (replace_str geohint_of adr)) ?s0)"
      by (simp add: get_geoID_def assms Let_def prepared_def split: option.splits)
    show "world (get_geoID tr fetch cc probe_ok progress killswitch d w)
           = world (rows_loop tr fetch cc progress killswitch ?n
                    (zip [0..<?n] (replace_str geohint_of adr)) ?s0)"
      by (simp add: get_geoID_def assms Let_def prepared_def split: option.splits)
    show "raised (get_geoID tr fetch cc probe_ok progress killswitch d w)
           = (case raised (rows_loop tr fetch cc progress killswitch ?n
                    (zip [0..<?n] (replace_str geohint_of adr)) ?s0) of
                Some e \<Rightarrow> Some e
              | None \<Rightarrow>
                 if progress \<and> index_var (rows_loop tr fetch cc progress killswitch ?n
                    (zip [0..<?n] (replace_str geohint_of adr)) ?s0) = None
                 then Some UnboundLocalError else None)"
      by (simp add: get_geoID_def assms Let_def prepared_def split: option.splits)
  qed
qed

lemma rows_of_frame:
  assumes "length hints = n"
  shows "distinct (map fst (zip [0..<n] hints))"
    and "list_all (\<lambda>row. fst row < n) (zip [0..<n] hints)"
    and "list_all is_str hints \<Longrightarrow> list_all (\<lambda>row. is_str (snd row)) (zip [0..<n] hints)"
proof -
  have m: "map fst (zip [0..<n] hints) = [0..<n]" using assms by (simp add: map_fst_zip)
  show "distinct (map fst (zip [0..<n] hints))" unfolding m by simp
  show "list_all (\<lambda>row. fst row < n) (zip [0..<n] hints)"
    by (auto simp: list_all_iff dest!: set_zip_leftD)
  show "list_all is_str hints \<Longrightarrow> list_all (\<lambda>row. is_str (snd row)) (zip [0..<n] hints)"
    by (auto simp: list_all_iff dest!: set_zip_rightD)
qed

lemma get_geoID_worked:
  assumes "wf_frame d" and "cols d ''adr'' = Some adr"
      and "j < processed killswitch (length (index d))" and "adr ! j = Str a"
  shows "\<exists>w0. cell_at (data (get_geoID tr fetch cc probe_ok progress killswitch d w)) ''geoID'' j
                 = geo_cell (fst (resolve_row tr fetch cc (geohint_of a) w0))
             \<and> cell_at (data (get_geoID tr fetch cc probe_ok progress killswitch d w)) ''exactlocation'' j
                 = Flag (fst (snd (resolve_row tr fetch cc (geohint_of a) w0)))"
proof -
  let ?n = "length (index d)"
  let ?hints = "replace_str geohint_of adr"
  from assms(1) obtain adr' where "cols d ''adr'' = Some adr'" "list_all is_str adr'"
    "length adr' = ?n" by (rule wf_frame_adr)
  with assms(2) have adr: "list_all is_str adr" "length adr = ?n" by simp_all
  have ok: "cols_ok d" using assms(1) by (simp add: wf_frame_def)
  obtain s0 where s0: "data s0 = prepared d adr"
    and run: "data (get_geoID tr fetch cc probe_ok progress killswitch d w)
           = data (rows_loop tr fetch cc progress killswitch ?n (zip [0..<?n] ?hints) s0)"
    using get_geoID_loop [OF assms(2)] by metis
  have len: "length ?hints = ?n" using adr(2) by simp
  have jn: "j < ?n" using assms(3) processed_le [of killswitch ?n] by simp
  have "?hints ! j = Str (geohint_of a)"
    using jn adr(2) assms(4) by (simp add: replace_str_nth)
  with worked_row_mem [OF len assms(3)]
  have mem: "(j, Str (geohint_of a))
      \<in> set (takeWhile (\<lambda>row. \<not> kill killswitch (fst row)) (zip [0..<?n] ?hints))" by simp
  have n0: "length (index (data s0)) = ?n" by (simp add: s0 prepared_def)
  show ?thesis
    unfolding run
  proof (rule rows_loop_stored [OF mem])
    show "distinct (map fst (zip [0..<?n] ?hints))" using len by (rule rows_of_frame)
    show "cols_ok (data s0)" unfolding s0 using ok adr(2) by (rule prepared_cols_ok)
    show "list_all (\<lambda>row. fst row < length (index (data s0))) (zip [0..<?n] ?hints)"
      unfolding n0 using len by (rule rows_of_frame)
    show "list_all (\<lambda>row. is_str (snd row)) (zip [0..<?n] ?hints)"
      using len replace_str_all [OF adr(1)] by (rule rows_of_frame)
  qed
qed

lemma get_geoID_untouched:
  assumes "wf_frame d" and "processed killswitch (length (index d)) \<le> j"
      and "j < length (index d)" and "name \<noteq> ''geohint''"
  shows "cell_at (data (get_geoID tr fetch cc probe_ok progress killswitch d w)) name j
           = cell_at d name j"
proof -
  let ?n = "length (index d)"
  from assms(1) obtain adr where adr: "cols d ''adr'' = Some adr" "list_all is_str adr"
    "length adr = ?n" by (rule wf_frame_adr)
  let ?hints = "replace_str geohint_of adr"
  have ok: "cols_ok d" using assms(1) by (simp add: wf_frame_def)
  obtain s0 where s0: "data s0 = prepared d adr"
    and run: "data (get_geoID tr fetch cc probe_ok progress killswitch d w)
           = data (rows_loop tr fetch cc progress killswitch ?n (zip [0..<?n] ?hints) s0)"
    using get_geoID_loop [OF adr(1)] by metis
  have len: "length ?hints = ?n" using adr(3) by simp
  have n0: "length (index (data s0)) = ?n" by (simp add: s0 prepared_def)
  have "cell_at (data (rows_loop tr fetch cc progress killswitch ?n (zip [0..<?n] ?hints) s0)) name j
        = cell_at (data s0) name j"
  proof (rule rows_loop_untouched)
    show "j \<notin> fst ` set (takeWhile (\<lambda>row. \<not> kill killswitch (fst row)) (zip [0..<?n] ?hints))"
      unfolding worked_row_fst [OF len] using assms(2) by simp
    show "j < length (index (data s0))" unfolding n0 by (rule assms(3))
    show "cols_ok (data s0)" unfolding s0 using ok adr(3) by (rule prepared_cols_ok)
    show "list_all (\<lambda>row. fst row < length (index (data s0))) (zip [0..<?n] ?hints)"
      unfolding n0 using len by (rule rows_of_frame)
  qed
  also have "\<dots> = cell_at d name j"
    unfolding s0 using assms(4) by (rule prepared_cell_at)
  finally show ?thesis unfolding run .
qed

lemma get_geoID_raised:
  assumes "wf_frame d"
  shows "raised (get_geoID tr fetch cc probe_ok progress killswitch d w)
           = (if progress \<and> index d = [] then Some UnboundLocalError else None)"
proof -
  let ?n = "length (index d)"
  from assms(1) obtain adr where adr: "cols d ''adr'' = Some adr" "list_all is_str adr"
    "length adr = ?n" by (rule wf_frame_adr)
  let ?hints = "replace_str geohint_of adr"
  let ?rows = "zip [0..<?n] ?hints"
  obtain s0 where s0: "raised s0 = None" "index_var s0 = None"
    and run: "raised (get_geoID tr fetch cc probe_ok progress killswitch d w)
           = (case raised (rows_loop tr fetch cc progress killswitch ?n ?rows s0) of
                Some e \<Rightarrow> Some e
              | None \<Rightarrow>
                 if progress \<and> index_var (rows_loop tr fetch cc progress killswitch ?n ?rows s0) = None
                 then Some UnboundLocalError else None)"
    using get_geoID_loop [OF adr(1)] by metis
  have len: "length ?hints = ?n" using adr(3) by simp
  have r: "raised (rows_loop tr fetch cc progress killswitch ?n ?rows s0) = None"
    using s0(1) rows_of_frame(3) [OF len replace_str_all [OF adr(2)]] by (rule rows_loop_raised)
  show ?thesis
  proof (cases "index d = []")
    case True
    then show ?thesis unfolding run r by (simp add: s0)
  next
    case False
    then have "?rows \<noteq> []" using len by (cases "index d"; cases ?hints) auto
    then have "\<exists>b. index_var (rows_loop tr fetch cc progress killswitch ?n ?rows s0) = Some b"
      by (rule rows_loop_index_var)
    then show ?thesis unfolding run r using False by auto
  qed
qed

text \<open>
  Claim C10.  On a frame without rows the loop of line 200 never binds \<^verbatim>\<open>index\<close>: with a
  progress signal the last report of line 301 raises \<^verbatim>\<open>UnboundLocalError\<close>; without
  one the call returns the frame, which has no row.
\<close>
theorem empty_frame_progress:
  assumes "index d = []" and "cols d ''adr'' = Some cells"
  shows "raised (get_geoID tr fetch cc probe_ok True killswitch d w) = Some UnboundLocalError
       \<and> raised (get_geoID tr fetch cc probe_ok False killswitch d w) = None
       \<and> index (data (get_geoID tr fetch cc probe_ok False killswitch d w)) = []"
  using assms by (simp add: get_geoID_def emit_def Let_def)

theorem empty_frame_progress_witness:
  "index no_rows = [] \<and> cols no_rows ''adr'' = Some []
     \<and> raised (get_geoID no_table nothing no_country True True None no_rows ()) = Some UnboundLocalError
     \<and> raised (get_geoID no_table nothing no_country True False None no_rows ()) = None
     \<and> index (data (get_geoID no_table nothing no_country True False None no_rows ())) = []"
proof -
  have a: "index no_rows = []" by (simp add: no_rows_def)
  have b: "cols no_rows ''adr'' = Some []" by (simp add: no_rows_def)
  show ?thesis
    using a b empty_frame_progress [OF a b, of no_table nothing no_country True None "()"]
    by simp
qed

lemma wf_frame_nth:
  assumes "wf_frame d" and "cols d ''adr'' = Some adr" and "j < length (index d)"
  obtains a where "adr ! j = Str a"
proof -
  from assms(1) obtain adr' where "cols d ''adr'' = Some adr'" "list_all is_str adr'"
    "length adr' = length (index d)" by (rule wf_frame_adr)
  with assms(2) have "list_all is_str adr" "length adr = length (index d)" by simp_all
  with assms(3) have "is_str (adr ! j)" by (simp add: list_all_length)
  then show ?thesis using that by (cases "adr ! j") (simp_all add: is_str_def)
qed

lemma processed_None: "processed None n = n"
  by (simp add: processed_def kill_def takeWhile_eq_all_conv [THEN iffD2])

lemma processed_at:
  assumes "k < n" and "kill killswitch k" and "\<forall>j<k. \<not> kill killswitch j"
  shows "processed killswitch n = k"
proof -
  have "[0..<n] = [0..<k] @ [k..<n]"
    using assms(1) upt_add_eq_append [of 0 k "n - k"] by simp
  also have "[k..<n] = k # [Suc k..<n]"
    using assms(1) by (rule upt_conv_Cons)
  finally have split: "[0..<n] = [0..<k] @ k # [Suc k..<n]" .
  have "takeWhile (\<lambda>i. \<not> kill killswitch i) ([0..<k] @ k # [Suc k..<n]) = [0..<k]"
    using assms(2,3) by (subst takeWhile_append2) auto
  then have "takeWhile (\<lambda>i. \<not> kill killswitch i) [0..<n] = [0..<k]"
    unfolding split [symmetric] .
  then show ?thesis by (simp add: processed_def)
qed

lemma worked_record_outcome:
  assumes "wf_frame d" and "j < processed killswitch (length (index d))"
  shows "is_outcome
          (cell_at (data (get_geoID tr fetch cc probe_ok progress killswitch d w)) ''geoID'' j)
          (cell_at (data (get_geoID tr fetch cc probe_ok progress killswitch d w)) ''exactlocation'' j)"
proof -
  from assms(1) obtain adr where adr: "cols d ''adr'' = Some adr" "list_all is_str adr"
    "length adr = length (index d)" by (rule wf_frame_adr)
  have "j < length (index d)"
    using assms(2) processed_le [of killswitch "length (index d)"] by simp
  with assms(1) adr(1) obtain a where a: "adr ! j = Str a" by (rule wf_frame_nth)
  from get_geoID_worked [OF assms(1) adr(1) assms(2) a, of tr fetch cc probe_ok progress w]
  obtain w0 where
    "cell_at (data (get_geoID tr fetch cc probe_ok progress killswitch d w)) ''geoID'' j
       = geo_cell (fst (resolve_row tr fetch cc (geohint_of a) w0))"
    "cell_at (data (get_geoID tr fetch cc probe_ok progress killswitch d w)) ''exactlocation'' j
       = Flag (fst (snd (resolve_row tr fetch cc (geohint_of a) w0)))"
    by blast
  then show ?thesis by (simp add: resolve_row_outcome)
qed

text \<open>
  Claim C6.  On a well-formed frame every record the loop works on gets an outcome in
  its cells \<^verbatim>\<open>geoID\<close> and \<^verbatim>\<open>exactlocation\<close>: a non-empty list of results with a flag, or
  the mark \<^verbatim>\<open>not found\<close> with the flag \<^verbatim>\<open>False\<close>, never a missing cell.  Without a kill
  switch the loop works on every record.
\<close>
theorem outcome_for_each_worked_record:
  assumes "wf_frame d"
  shows "(\<forall>j < processed killswitch (length (index d)).
            is_outcome
              (cell_at (data (get_geoID tr fetch cc probe_ok progress killswitch d w)) ''geoID'' j)
              (cell_at (data (get_geoID tr fetch cc probe_ok progress killswitch d w)) ''exactlocation'' j))
       \<and> processed None (length (index d)) = length (index d)"
  by (simp add: worked_record_outcome [OF assms] processed_None)

lemma wf_two_rows: "wf_frame (two_rows a b)"
  by (simp add: wf_frame_def cols_ok_def two_rows_def is_str_def)

lemma wf_one_row: "wf_frame (one_row l a)"
  by (simp add: wf_frame_def cols_ok_def one_row_def is_str_def)

theorem outcome_for_each_worked_record_witness:
  "wf_frame (two_rows ''a'' ''b'')
   \<and> is_outcome
       (cell_at (data (get_geoID no_table only_a no_country True True None (two_rows ''a'' ''b'') ())) ''geoID'' 1)
       (cell_at (data (get_geoID no_table only_a no_country True True None (two_rows ''a'' ''b'') ())) ''exactlocation'' 1)
   \<and> cell_at (data (get_geoID no_table only_a no_country True True None (two_rows ''a'' ''b'') ())) ''geoID'' 1
       = Str ''not found''"
proof -
  have wf: "wf_frame (two_rows ''a'' ''b'')" by (rule wf_two_rows)
  have n: "length (index (two_rows ''a'' ''b'')) = 2" by (simp add: two_rows_def)
  have nf: "cell_at (data (get_geoID no_table only_a no_country True True None (two_rows ''a'' ''b'') ())) ''geoID'' 1
       = Str ''not found''" by code_simp
  note t = outcome_for_each_worked_record [OF wf, of None no_table only_a no_country True True "()"]
  have "is_outcome
       (cell_at (data (get_geoID no_table only_a no_country True True None (two_rows ''a'' ''b'') ())) ''geoID'' 1)
       (cell_at (data (get_geoID no_table only_a no_country True True None (two_rows ''a'' ''b'') ())) ''exactlocation'' 1)"
    by (rule t [THEN conjunct1, rule_format]) (simp add: n processed_None)
  with wf nf show ?thesis by (intro conjI)
qed



text \<open>
  Claim C7.  When the kill switch is found set before record \<open>k\<close> and not before, the
  call returns without an exception; the records before \<open>k\<close> have their outcomes, and
  the cells \<^verbatim>\<open>geoID\<close> and \<^verbatim>\<open>exactlocation\<close> of record \<open>k\<close> and of the records after it are
  as the caller gave them (missing, in a frame that had no such columns).
\<close>
theorem cancel_before_record:
  assumes "wf_frame d" and "k < length (index d)"
      and "kill killswitch k" and "\<forall>j<k. \<not> kill killswitch j"
  shows "raised (get_geoID tr fetch cc probe_ok progress killswitch d w) = None
       \<and> (\<forall>j<k. is_outcome
              (cell_at (data (get_geoID tr fetch cc probe_ok progress killswitch d w)) ''geoID'' j)
              (cell_at (data (get_geoID tr fetch cc probe_ok progress killswitch d w)) ''exactlocation'' j))
       \<and> (\<forall>j. k \<le> j \<and> j < length (index d) \<longrightarrow>
              cell_at (data (get_geoID tr fetch cc probe_ok progress killswitch d w)) ''geoID'' j
                = cell_at d ''geoID'' j
            \<and> cell_at (data (get_geoID tr fetch cc probe_ok progress killswitch d w)) ''exactlocation'' j
                = cell_at d ''exactlocation'' j)"
proof -
  have p: "processed killswitch (length (index d)) = k"
    using assms(2-4) by (rule processed_at)
  have "index d \<noteq> []" using assms(2) by auto
  then have r: "raised (get_geoID tr fetch cc probe_ok progress killswitch d w) = None"
    by (simp add: get_geoID_raised [OF assms(1)])
  have o: "\<forall>j<k. is_outcome
              (cell_at (data (get_geoID tr fetch cc probe_ok progress killswitch d w)) ''geoID'' j)
              (cell_at (data (get_geoID tr fetch cc probe_ok progress killswitch d w)) ''exactlocation'' j)"
    by (simp add: worked_record_outcome [OF assms(1), of _ killswitch, unfolded p])
  have u: "cell_at (data (get_geoID tr fetch cc probe_ok progress killswitch d w)) name j
             = cell_at d name j"
    if "k \<le> j" "j < length (index d)" "name \<noteq> ''geohint''" for name j
    using assms(1) _ that(2,3) by (rule get_geoID_untouched) (simp add: p that(1))
  have g: "\<forall>j. k \<le> j \<and> j < length (index d) \<longrightarrow>
              cell_at (data (get_geoID tr fetch cc probe_ok progress killswitch d w)) ''geoID'' j
                = cell_at d ''geoID'' j
            \<and> cell_at (data (get_geoID tr fetch cc probe_ok progress killswitch d w)) ''exactlocation'' j
                = cell_at d ''exactlocation'' j"
    by (intro allI impI conjI u) simp_all
  from r o g show ?thesis by (intro conjI)
qed


theorem cancel_before_record_witness:
  "wf_frame (two_rows ''a'' ''b'') \<and> 1 < length (index (two_rows ''a'' ''b''))
   \<and> kill set_before_second 1 \<and> \<not> kill set_before_second 0
   \<and> raised (get_geoID no_table only_a no_country True True set_before_second (two_rows ''a'' ''b'') ()) = None
   \<and> is_outcome
       (cell_at (data (get_geoID no_table only_a no_country True True set_before_second (two_rows ''a'' ''b'') ())) ''geoID'' 0)
       (cell_at (data (get_geoID no_table only_a no_country True True set_before_second (two_rows ''a'' ''b'') ())) ''exactlocation'' 0)
   \<and> cell_at (data (get_geoID no_table only_a no_country True True set_before_second (two_rows ''a'' ''b'') ())) ''geoID'' 1
       = NaN"
proof -
  have wf: "wf_frame (two_rows ''a'' ''b'')" by (rule wf_two_rows)
  have n: "1 < length (index (two_rows ''a'' ''b''))" by (simp add: two_rows_def)
  have k: "kill set_before_second 1" by (simp add: kill_def set_before_second_def)
  have k0: "\<not> kill set_before_second 0" by (simp add: kill_def set_before_second_def)
  have b: "\<forall>j<1. \<not> kill set_before_second j" using k0 by simp
  have nan: "cell_at (two_rows ''a'' ''b'') ''geoID'' 1 = (NaN :: nat cell)"
    by (simp add: cell_at_def two_rows_def)
  note c = cancel_before_record [OF wf n k b, of no_table only_a no_country True True "()"]
  from c have r: "raised (get_geoID no_table only_a no_country True True set_before_second (two_rows ''a'' ''b'') ()) = None"
    by (rule conjunct1)
  from c have o: "is_outcome
       (cell_at (data (get_geoID no_table only_a no_country True True set_before_second (two_rows ''a'' ''b'') ())) ''geoID'' 0)
       (cell_at (data (get_geoID no_table only_a no_country True True set_before_second (two_rows ''a'' ''b'') ())) ''exactlocation'' 0)"
    by simp
  from c n have u: "cell_at (data (get_geoID no_table only_a no_country True True set_before_second (two_rows ''a'' ''b'') ())) ''geoID'' 1
       = cell_at (two_rows ''a'' ''b'') ''geoID'' 1"
    by simp
  from wf n k k0 r o u [unfolded nan] show ?thesis by (intro conjI)
qed

lemma rows_loop_kill:
  "kill killswitch i \<Longrightarrow>
     rows_loop tr fetch cc progress killswitch entries ((i, hint) # rows) u
       = emit progress (i, 0, i, Cancel)
           (emit progress (i, 0, entries, Downloading) (u\<lparr>index_var := Some i\<rparr>))"
  by (simp add: Let_def)

lemma rows_loop_str:
  "\<not> kill killswitch i \<Longrightarrow> resolve_row tr fetch cc h (world u) = (result, flag, w') \<Longrightarrow>
     rows_loop tr fetch cc progress killswitch entries ((i, Str h) # rows) u
       = rows_loop tr fetch cc progress killswitch entries rows
           (emit progress (i, 0, entries, Downloading) (u\<lparr>index_var := Some i\<rparr>)
              \<lparr>data := store_row (data u) i result flag, world := w'\<rparr>)"
  by (simp add: Let_def)

lemma rows_loop_bad:
  "\<not> kill killswitch i \<Longrightarrow> \<not> is_str hint \<Longrightarrow>
     rows_loop tr fetch cc progress killswitch entries ((i, hint) # rows) u
       = (emit progress (i, 0, entries, Downloading) (u\<lparr>index_var := Some i\<rparr>))
           \<lparr>raised := Some NotAString\<rparr>"
  by (cases hint) (simp_all add: Let_def is_str_def)

lemma rows_loop_emitted:
  assumes "data s = data t" and "world s = world t" and "index_var s = index_var t"
      and "raised s = raised t"
  shows "data (rows_loop tr fetch cc progress killswitch entries rows s)
           = data (rows_loop tr fetch cc progress killswitch entries rows t)
       \<and> world (rows_loop tr fetch cc progress killswitch entries rows s)
           = world (rows_loop tr fetch cc progress killswitch entries rows t)
       \<and> index_var (rows_loop tr fetch cc progress killswitch entries rows s)
           = index_var (rows_loop tr fetch cc progress killswitch entries rows t)
       \<and> raised (rows_loop tr fetch cc progress killswitch entries rows s)
           = raised (rows_loop tr fetch cc progress killswitch entries rows t)"
  using assms
proof (induction rows arbitrary: s t)
  case Nil
  then show ?case by simp
next
  case (Cons row rows)
  obtain i hint where row: "row = (i, hint)" by (cases row)
  show ?case
  proof (cases "kill killswitch i")
    case True
    show ?thesis
      unfolding row rows_loop_kill [OF True] using Cons.prems by simp
  next
    case False
    show ?thesis
    proof (cases "is_str hint")
      case True
      then obtain h where Str: "hint = Str h" by (cases hint) (simp_all add: is_str_def)
      obtain result flag w' where r: "resolve_row tr fetch cc h (world s) = (result, flag, w')"
        by (metis prod_cases3)
      have r': "resolve_row tr fetch cc h (world t) = (result, flag, w')"
        using r Cons.prems(2) by simp
      show ?thesis
        unfolding row Str rows_loop_str [OF False r] rows_loop_str [OF False r']
        by (rule Cons.IH) (simp_all add: Cons.prems)
    next
      case bad: False
      show ?thesis
        unfolding row rows_loop_bad [OF False bad] using Cons.prems by simp
    qed
  qed
qed


lemma probe_irrelevant:
  fixes fetch :: "('r, 'w) fetcher" and d :: "'r frame"
  shows "data (get_geoID tr fetch cc False progress killswitch d w)
     = data (get_geoID tr fetch cc True progress killswitch d w)
   \<and> world (get_geoID tr fetch cc False progress killswitch d w)
     = world (get_geoID tr fetch cc True progress killswitch d w)
   \<and> raised (get_geoID tr fetch cc False progress killswitch d w)
     = raised (get_geoID tr fetch cc True progress killswitch d w)"
proof (cases "cols d ''adr''")
  case None
  then show ?thesis by (simp add: get_geoID_def Let_def)
next
  case (Some adr)
  let ?n = "length (index d)"
  let ?rows = "zip [0..<?n] (replace_str geohint_of adr)"
  let ?s1 = "emit progress (0, 0, ?n, Downloading)
               \<lparr>data = d, world = w, emitted = [], index_var = None, raised = None\<rparr>"
  define a where "a = rows_loop tr fetch cc progress killswitch ?n ?rows
    ((emit progress (0, 0, ?n, Unreachable) ?s1)\<lparr>data := prepared d adr\<rparr>)"
  define b where "b = rows_loop tr fetch cc progress killswitch ?n ?rows
    (?s1\<lparr>data := prepared d adr\<rparr>)"
  define finish :: "('r, 'w) run \<Rightarrow> ('r, 'w) run" where "finish = (\<lambda>s3.
     if raised s3 \<noteq> None then s3
     else if progress then
       (case index_var s3 of
          None \<Rightarrow> s3\<lparr>raised := Some UnboundLocalError\<rparr>
        | Some i \<Rightarrow> emit progress (i, ?n, ?n, Cancel) s3)
     else s3)"
  have ga: "get_geoID tr fetch cc False progress killswitch d w = finish a"
    by (simp add: get_geoID_def Some Let_def prepared_def a_def finish_def)
  have gb: "get_geoID tr fetch cc True progress killswitch d w = finish b"
    by (simp add: get_geoID_def Some Let_def prepared_def b_def finish_def)
  have ab: "data a = data b \<and> world a = world b \<and> index_var a = index_var b
            \<and> raised a = raised b"
    unfolding a_def b_def by (rule rows_loop_emitted) simp_all
  show ?thesis
    unfolding ga gb using ab by (auto simp: finish_def split: option.splits)
qed

subsection \<open>The state of the fetcher at the start of a record\<close>

lemma rows_loop_stored_at:
  assumes "\<forall>row \<in> set pre. \<not> kill killswitch (fst row)" and "\<not> kill killswitch i"
      and "distinct (map fst (pre @ (i, Str h) # post))"
      and "cols_ok (data s)"
      and "list_all (\<lambda>row. fst row < length (index (data s))) (pre @ (i, Str h) # post)"
      and "list_all (\<lambda>row. is_str (snd row)) pre"
  shows "cell_at (data (rows_loop tr fetch cc progress killswitch entries (pre @ (i, Str h) # post) s))
            ''geoID'' i
           = geo_cell (fst (resolve_row tr fetch cc h
               (world_after tr fetch cc (map snd pre) (world s))))
       \<and> cell_at (data (rows_loop tr fetch cc progress killswitch entries (pre @ (i, Str h) # post) s))
            ''exactlocation'' i
           = Flag (fst (snd (resolve_row tr fetch cc h
               (world_after tr fetch cc (map snd pre) (world s)))))"
  using assms
proof (induction pre arbitrary: s)
  case Nil
  obtain result flag w' where r: "resolve_row tr fetch cc h (world s) = (result, flag, w')"
    by (metis prod_cases3)
  let ?s = "emit progress (i, 0, entries, Downloading) (s\<lparr>index_var := Some i\<rparr>)
              \<lparr>data := store_row (data s) i result flag, world := w'\<rparr>"
  have step: "rows_loop tr fetch cc progress killswitch entries ([] @ (i, Str h) # post) s
              = rows_loop tr fetch cc progress killswitch entries post ?s"
    using rows_loop_str [OF Nil.prems(2) r] by simp
  have i_n: "i < length (index (data s))" using Nil.prems(5) by simp
  have "i \<notin> fst ` set post" using Nil.prems(3) by auto
  then have out: "i \<notin> fst ` set (takeWhile (\<lambda>row. \<not> kill killswitch (fst row)) post)"
    by (auto dest: set_takeWhileD)
  have keep: "cell_at (data (rows_loop tr fetch cc progress killswitch entries post ?s)) name i
              = cell_at (data ?s) name i" for name
  proof (rule rows_loop_untouched [OF out])
    show "i < length (index (data ?s))" using i_n by simp
    show "cols_ok (data ?s)" using Nil.prems(4) by (simp add: store_row_cols_ok)
    show "list_all (\<lambda>row. fst row < length (index (data ?s))) post"
      using Nil.prems(5) by simp
  qed
  show ?case
    unfolding step keep using Nil.prems(4) i_n r by (simp add: cell_at_store_row)
next
  case (Cons row pre)
  obtain i' hint where row: "row = (i', hint)" by (cases row)
  obtain h' where hint: "hint = Str h'"
    using Cons.prems(6) by (cases hint) (auto simp: row is_str_def)
  have nk: "\<not> kill killswitch i'" using Cons.prems(1) by (simp add: row)
  obtain result flag w' where r: "resolve_row tr fetch cc h' (world s) = (result, flag, w')"
    by (metis prod_cases3)
  let ?s = "emit progress (i', 0, entries, Downloading) (s\<lparr>index_var := Some i'\<rparr>)
              \<lparr>data := store_row (data s) i' result flag, world := w'\<rparr>"
  have step: "rows_loop tr fetch cc progress killswitch entries ((row # pre) @ (i, Str h) # post) s
              = rows_loop tr fetch cc progress killswitch entries (pre @ (i, Str h) # post) ?s"
    using rows_loop_str [OF nk r] by (simp add: row hint)
  have w: "world_after tr fetch cc (map snd (row # pre)) (world s)
           = world_after tr fetch cc (map snd pre) (world ?s)"
    using r by (simp add: row hint)
  show ?case
    unfolding step w
  proof (rule Cons.IH)
    show "\<forall>row \<in> set pre. \<not> kill killswitch (fst row)" using Cons.prems(1) by simp
    show "\<not> kill killswitch i" by (rule Cons.prems(2))
    show "distinct (map fst (pre @ (i, Str h) # post))" using Cons.prems(3) by simp
    show "cols_ok (data ?s)" using Cons.prems(4) by (simp add: store_row_cols_ok)
    show "list_all (\<lambda>row. fst row < length (index (data ?s))) (pre @ (i, Str h) # post)"
      using Cons.prems(5) by simp
    show "list_all (\<lambda>row. is_str (snd row)) pre" using Cons.prems(6) by simp
  qed
qed

lemma not_kill_before:
  assumes "i < processed killswitch n"
  shows "\<not> kill killswitch i"
proof -
  let ?P = "\<lambda>i. \<not> kill killswitch i"
  have l: "i < length (takeWhile ?P [0..<n])" using assms by (simp add: processed_def)
  then have "takeWhile ?P [0..<n] ! i \<in> set (takeWhile ?P [0..<n])" by (rule nth_mem)
  then have "?P (takeWhile ?P [0..<n] ! i)" by (rule set_takeWhileD [THEN conjunct2])
  moreover have "takeWhile ?P [0..<n] ! i = [0..<n] ! i" using l by (rule takeWhile_nth)
  moreover have "i < n" using assms processed_le [of killswitch n] by simp
  ultimately show ?thesis by simp
qed

lemma rows_split:
  assumes "j < n" and "length hints = n"
  shows "zip [0..<n] hints
           = zip [0..<j] (take j hints) @ (j, hints ! j) # zip [Suc j..<n] (drop (Suc j) hints)"
proof -
  have u: "[0..<n] = [0..<j] @ j # [Suc j..<n]"
    using assms(1) upt_add_eq_append [of 0 j "n - j"] upt_conv_Cons [of j n] by simp
  have h: "hints = take j hints @ hints ! j # drop (Suc j) hints"
    using assms by (simp add: id_take_nth_drop)
  have "zip ([0..<j] @ j # [Suc j..<n]) (take j hints @ hints ! j # drop (Suc j) hints)
        = zip [0..<j] (take j hints) @ zip (j # [Suc j..<n]) (hints ! j # drop (Suc j) hints)"
    using assms by (intro zip_append) simp
  then show ?thesis using u h by simp
qed

lemma get_geoID_worked_at:
  assumes "wf_frame d" and "cols d ''adr'' = Some adr"
      and "j < processed killswitch (length (index d))" and "adr ! j = Str a"
  shows "cell_at (data (get_geoID tr fetch cc probe_ok progress killswitch d w)) ''geoID'' j
           = geo_cell (fst (resolve_row tr fetch cc (geohint_of a)
               (world_after tr fetch cc (take j (replace_str geohint_of adr)) w)))
       \<and> cell_at (data (get_geoID tr fetch cc probe_ok progress killswitch d w)) ''exactlocation'' j
           = Flag (fst (snd (resolve_row tr fetch cc (geohint_of a)
               (world_after tr fetch cc (take j (replace_str geohint_of adr)) w))))"
proof -
  let ?n = "length (index d)"
  let ?hints = "replace_str geohint_of adr"
  let ?pre = "zip [0..<j] (take j ?hints)"
  let ?post = "zip [Suc j..<?n] (drop (Suc j) ?hints)"
  from assms(1) obtain adr' where "cols d ''adr'' = Some adr'" "list_all is_str adr'"
    "length adr' = ?n" by (rule wf_frame_adr)
  with assms(2) have adr: "list_all is_str adr" "length adr = ?n" by simp_all
  have ok: "cols_ok d" using assms(1) by (simp add: wf_frame_def)
  obtain s0 where s0: "data s0 = prepared d adr" "world s0 = w"
    and run: "data (get_geoID tr fetch cc probe_ok progress killswitch d w)
           = data (rows_loop tr fetch cc progress killswitch ?n (zip [0..<?n] ?hints) s0)"
    using get_geoID_loop [OF assms(2)] by metis
  have len: "length ?hints = ?n" using adr(2) by simp
  have jn: "j < ?n" using assms(3) processed_le [of killswitch ?n] by simp
  have hj: "?hints ! j = Str (geohint_of a)"
    using jn adr(2) assms(4) by (simp add: replace_str_nth)
  have rows: "zip [0..<?n] ?hints = ?pre @ (j, Str (geohint_of a)) # ?post"
    using rows_split [OF jn len] hj by simp
  have n0: "length (index (data s0)) = ?n" by (simp add: s0 prepared_def)
  have snd_pre: "map snd ?pre = take j ?hints"
    using jn len by (simp add: map_snd_zip)
  have "cell_at (data (rows_loop tr fetch cc progress killswitch ?n
                  (?pre @ (j, Str (geohint_of a)) # ?post) s0)) ''geoID'' j
           = geo_cell (fst (resolve_row tr fetch cc (geohint_of a)
               (world_after tr fetch cc (map snd ?pre) (world s0))))
       \<and> cell_at (data (rows_loop tr fetch cc progress killswitch ?n
                  (?pre @ (j, Str (geohint_of a)) # ?post) s0)) ''exactlocation'' j
           = Flag (fst (snd (resolve_row tr fetch cc (geohint_of a)
               (world_after tr fetch cc (map snd ?pre) (world s0)))))"
  proof (rule rows_loop_stored_at)
    show "\<forall>row \<in> set ?pre. \<not> kill killswitch (fst row)"
    proof
      fix row assume "row \<in> set ?pre"
      then have "(fst row, snd row) \<in> set ?pre" by simp
      then have "fst row \<in> set [0..<j]" by (rule set_zip_leftD)
      then have "fst row < processed killswitch ?n" using assms(3) by simp
      then show "\<not> kill killswitch (fst row)" by (rule not_kill_before)
    qed
    show "\<not> kill killswitch j" using assms(3) by (rule not_kill_before)
    show "distinct (map fst (?pre @ (j, Str (geohint_of a)) # ?post))"
      unfolding rows [symmetric] using len by (rule rows_of_frame)
    show "cols_ok (data s0)" unfolding s0 using ok adr(2) by (rule prepared_cols_ok)
    show "list_all (\<lambda>row. fst row < length (index (data s0))) (?pre @ (j, Str (geohint_of a)) # ?post)"
      unfolding rows [symmetric] n0 using len by (rule rows_of_frame)
    have "list_all (\<lambda>row. is_str (snd row)) (zip [0..<?n] ?hints)"
      using len replace_str_all [OF adr(1)] by (rule rows_of_frame)
    then show "list_all (\<lambda>row. is_str (snd row)) ?pre" unfolding rows by simp
  qed
  then show ?thesis unfolding run rows snd_pre s0 .
qed

text \<open>
  Claim C1, as the code has it.  \<^verbatim>\<open>flag_accurate\<close> starts as \<^verbatim>\<open>False\<close>, is set when the
  plain query of a segment comes back with a result, and is never reset.  So the flag
  stored for a record \<open>j\<close> the loop worked on is true if and only if the plain query
  succeeded for at least one non-empty segment of the record, sent in the state the
  fetcher had when that segment was reached: the state left by the records before \<open>j\<close>
  and then by the segments of the record that come before it.
\<close>
theorem exact_flag_some_segment:
  assumes "wf_frame d" and "cols d ''adr'' = Some adr"
      and "j < processed killswitch (length (index d))" and "adr ! j = Str a"
  shows "cell_at (data (get_geoID tr fetch cc probe_ok progress killswitch d w)) ''exactlocation'' j
           = Flag (\<exists>pre e post. split_row tr (geohint_of a) = pre @ e # post
                     \<and> clean_elem e \<noteq> []
                     \<and> succeeds fetch
                           (snd (snd (resolve_elems fetch cc pre
                              ([], False,
                               world_after tr fetch cc (take j (replace_str geohint_of adr)) w))))
                           (Plain (clean_elem e)))"
  using get_geoID_worked_at [OF assms, of tr fetch cc probe_ok progress w]
  unfolding resolve_row_flag by (rule conjunct2)

theorem exact_flag_some_segment_witness:
  "wf_frame (two_rows ''b'' ''HOME: a WORK: b'')
   \<and> cols (two_rows ''b'' ''HOME: a WORK: b'') ''adr'' = Some [Str ''b'', Str ''HOME: a WORK: b'']
   \<and> 1 < processed None (length (index (two_rows ''b'' ''HOME: a WORK: b'')))
   \<and> [Str ''b'', Str ''HOME: a WORK: b''] ! 1 = (Str ''HOME: a WORK: b'' :: nat cell)
   \<and> cell_at (data (get_geoID no_table only_a no_country True False None
                 (two_rows ''b'' ''HOME: a WORK: b'') ())) ''exactlocation'' 1
           = Flag (\<exists>pre e post. split_row no_table (geohint_of ''HOME: a WORK: b'') = pre @ e # post
                     \<and> clean_elem e \<noteq> []
                     \<and> succeeds only_a
                           (snd (snd (resolve_elems only_a no_country pre
                              ([], False,
                               world_after no_table only_a no_country
                                 (take 1 (replace_str geohint_of [Str ''b'', Str ''HOME: a WORK: b''])) ()))))
                           (Plain (clean_elem e)))"
proof -
  have a: "wf_frame (two_rows ''b'' ''HOME: a WORK: b'')" by (rule wf_two_rows)
  have b: "cols (two_rows ''b'' ''HOME: a WORK: b'') ''adr'' = Some [Str ''b'', Str ''HOME: a WORK: b'']"
    by (simp add: two_rows_def)
  have c: "1 < processed None (length (index (two_rows ''b'' ''HOME: a WORK: b'')))"
    by (simp add: processed_None two_rows_def)
  have d: "[Str ''b'', Str ''HOME: a WORK: b''] ! 1 = (Str ''HOME: a WORK: b'' :: nat cell)" by simp
  note t = exact_flag_some_segment [OF a b c d, of no_table only_a no_country True False "()"]
  from a b c d t show ?thesis by (intro conjI)
qed

text \<open>
  Against claim C1: the record \<^verbatim>\<open>HOME: a WORK: b\<close> has the segments \<^verbatim>\<open>a\<close> and \<^verbatim>\<open>b\<close>; the
  plain query succeeds for \<^verbatim>\<open>a\<close> and fails for \<^verbatim>\<open>b\<close>, and the flag of the record is
  \<^verbatim>\<open>True\<close>.
\<close>
theorem exact_flag_counterexample:
  "normalize no_table ''HOME: a WORK: b'' = [''a'', ''b'']
   \<and> succeeds only_a () (Plain ''a'')
   \<and> \<not> succeeds only_a () (Plain ''b'')
   \<and> cell_at (data (get_geoID no_table only_a no_country True False None
                 (one_row 0 ''HOME: a WORK: b'') ())) ''exactlocation'' 0 = Flag True"
  by code_simp

subsection \<open>A fetcher that stays without a result\<close>

lemma first_result_closed:
  assumes "closed_without_result fetch I" and "I w"
  shows "fst (first_result fetch qs w) = None \<and> I (snd (first_result fetch qs w))"
  using assms(2)
proof (induction qs arbitrary: w)
  case Nil
  then show ?case by simp
next
  case (Cons q qs)
  obtain r w' where f: "fetch w (encode q) = (r, w')" by (cases "fetch w (encode q)")
  from assms(1) Cons.prems have "I (snd (fetch w (encode q)))"
    and c: "case fst (fetch w (encode q)) of Results (out # outs) \<Rightarrow> False | _ \<Rightarrow> True"
    by (simp_all add: closed_without_result_def)
  then have "I w'" by (simp add: f)
  then have ih: "fst (first_result fetch qs w') = None \<and> I (snd (first_result fetch qs w'))"
    by (rule Cons.IH)
  show ?case
    using c ih by (auto simp: f split: fetched.splits list.splits)
qed

lemma resolve_elem_closed:
  assumes "closed_without_result fetch I" and "I w"
  shows "\<exists>w'. resolve_elem fetch cc elem (result, flag, w) = (result, flag, w') \<and> I w'"
  using first_result_closed [OF assms, of "candidates cc elem"]
  by (cases "first_result fetch (candidates cc elem) w") (simp add: resolve_elem_first_result)

lemma resolve_elems_closed:
  assumes "closed_without_result fetch I" and "I w"
  shows "\<exists>w'. resolve_elems fetch cc elems (result, flag, w) = (result, flag, w') \<and> I w'"
  using assms(2)
proof (induction elems arbitrary: w)
  case Nil
  then show ?case by simp
next
  case (Cons x xs)
  show ?case
  proof (cases "clean_elem x = []")
    case True
    then show ?thesis using Cons.IH [OF Cons.prems] by simp
  next
    case False
    from resolve_elem_closed [OF assms(1) Cons.prems, of cc "clean_elem x" result flag]
    obtain w1 where w1: "resolve_elem fetch cc (clean_elem x) (result, flag, w) = (result, flag, w1)"
      "I w1" by blast
    from Cons.IH [OF w1(2)] show ?thesis using False w1(1) by simp
  qed
qed

lemma resolve_row_closed:
  assumes "closed_without_result fetch I" and "I w"
  shows "\<exists>w'. resolve_row tr fetch cc h w = ([], False, w') \<and> I w'"
  unfolding resolve_row_def using assms by (rule resolve_elems_closed)

lemma world_after_closed:
  assumes "closed_without_result fetch I" and "I w"
  shows "I (world_after tr fetch cc hints w)"
  using assms(2)
proof (induction hints arbitrary: w)
  case Nil
  then show ?case by simp
next
  case (Cons c hints)
  show ?case
  proof (cases c)
    case (Str h)
    from resolve_row_closed [OF assms(1) Cons.prems, of tr cc h]
    obtain w' where "resolve_row tr fetch cc h w = ([], False, w')" "I w'" by blast
    then show ?thesis using Cons.IH [of w'] by (simp add: Str)
  qed (use Cons.prems in simp_all)
qed

text \<open>
  Claim C5, as the code has it.  On every input the request of line 160 only decides
  whether a message is emitted: the frame, the state of the fetcher and the exception of
  a call are the same whether it went through or not.  And when the call starts in a
  state from which no query can come back with a result (a set \<open>I\<close> of states that every
  fetch stays in and answers without a result, as an empty cache in front of a service
  that cannot be reached), every record the loop works on gets \<^verbatim>\<open>not found\<close> and the
  flag \<^verbatim>\<open>False\<close>, and a call on a frame with at least one record raises nothing.
\<close>
theorem unreachable_service_not_found:
  "data (get_geoID tr fetch cc False progress killswitch d w)
     = data (get_geoID tr fetch cc True progress killswitch d w)
   \<and> world (get_geoID tr fetch cc False progress killswitch d w)
     = world (get_geoID tr fetch cc True progress killswitch d w)
   \<and> raised (get_geoID tr fetch cc False progress killswitch d w)
     = raised (get_geoID tr fetch cc True progress killswitch d w)
   \<and> (wf_frame d \<and> index d \<noteq> [] \<and> I w \<and> closed_without_result fetch I \<longrightarrow>
        raised (get_geoID tr fetch cc probe_ok progress killswitch d w) = None
        \<and> (\<forall>j < processed killswitch (length (index d)).
              cell_at (data (get_geoID tr fetch cc probe_ok progress killswitch d w)) ''geoID'' j
                = Str ''not found''
            \<and> cell_at (data (get_geoID tr fetch cc probe_ok progress killswitch d w)) ''exactlocation'' j
                = Flag False))"
proof -
  have cells: "cell_at (data (get_geoID tr fetch cc probe_ok progress killswitch d w)) ''geoID'' j
                = Str ''not found''
            \<and> cell_at (data (get_geoID tr fetch cc probe_ok progress killswitch d w)) ''exactlocation'' j
                = Flag False"
    if wf: "wf_frame d" and I: "I w" "closed_without_result fetch I"
      and j: "j < processed killswitch (length (index d))" for j
  proof -
    from wf obtain adr where adr: "cols d ''adr'' = Some adr" "list_all is_str adr"
      "length adr = length (index d)" by (rule wf_frame_adr)
    have "j < length (index d)"
      using j processed_le [of killswitch "length (index d)"] by simp
    with wf adr(1) obtain a where a: "adr ! j = Str a" by (rule wf_frame_nth)
    let ?w0 = "world_after tr fetch cc (take j (replace_str geohint_of adr)) w"
    have "I ?w0" using I(2,1) by (rule world_after_closed)
    from resolve_row_closed [OF I(2) this, of tr cc "geohint_of a"]
    obtain w' where "resolve_row tr fetch cc (geohint_of a) ?w0 = ([], False, w')"
      by blast
    then show ?thesis
      using get_geoID_worked_at [OF wf adr(1) j a, of tr fetch cc probe_ok progress w]
      by (simp add: geo_cell_def)
  qed
  have r: "raised (get_geoID tr fetch cc probe_ok progress killswitch d w) = None"
    if "wf_frame d" "index d \<noteq> []"
    using that by (simp add: get_geoID_raised)
  note p = probe_irrelevant [of tr fetch cc progress killswitch d w]
  show ?thesis
  proof (intro conjI impI allI)
    show "data (get_geoID tr fetch cc False progress killswitch d w)
          = data (get_geoID tr fetch cc True progress killswitch d w)"
      using p by (rule conjunct1)
    show "world (get_geoID tr fetch cc False progress killswitch d w)
          = world (get_geoID tr fetch cc True progress killswitch d w)"
      using p [THEN conjunct2] by (rule conjunct1)
    show "raised (get_geoID tr fetch cc False progress killswitch d w)
          = raised (get_geoID tr fetch cc True progress killswitch d w)"
      using p [THEN conjunct2] by (rule conjunct2)
  next
    assume h: "wf_frame d \<and> index d \<noteq> [] \<and> I w \<and> closed_without_result fetch I"
    then show "raised (get_geoID tr fetch cc probe_ok progress killswitch d w) = None"
      by (intro r) simp_all
  next
    fix j
    assume h: "wf_frame d \<and> index d \<noteq> [] \<and> I w \<and> closed_without_result fetch I"
      and j: "j < processed killswitch (length (index d))"
    from h have "wf_frame d" "I w" "closed_without_result fetch I" by simp_all
    from cells [OF this j]
    show "cell_at (data (get_geoID tr fetch cc probe_ok progress killswitch d w)) ''geoID'' j
            = Str ''not found''" by (rule conjunct1)
    from h have "wf_frame d" "I w" "closed_without_result fetch I" by simp_all
    from cells [OF this j]
    show "cell_at (data (get_geoID tr fetch cc probe_ok progress killswitch d w)) ''exactlocation'' j
            = Flag False" by (rule conjunct2)
  qed
qed

lemma cut_off_closed: "closed_without_result fetch_cache_or_web cut_off"
  by (simp add: closed_without_result_def cut_off_def fetch_cache_or_web_def)

theorem unreachable_service_not_found_witness:
  "wf_frame (two_rows ''a'' ''b'') \<and> index (two_rows ''a'' ''b'') \<noteq> []
   \<and> cut_off offline \<and> closed_without_result fetch_cache_or_web cut_off
   \<and> raised (get_geoID no_table fetch_cache_or_web no_country False True None
               (two_rows ''a'' ''b'') offline) = None
   \<and> cell_at (data (get_geoID no_table fetch_cache_or_web no_country False True None
               (two_rows ''a'' ''b'') offline)) ''geoID'' 1 = Str ''not found''
   \<and> cell_at (data (get_geoID no_table fetch_cache_or_web no_country False True None
               (two_rows ''a'' ''b'') offline)) ''exactlocation'' 1 = Flag False"
proof -
  have a: "wf_frame (two_rows ''a'' ''b'')" by (rule wf_two_rows)
  have b: "index (two_rows ''a'' ''b'') \<noteq> []" by (simp add: two_rows_def)
  have c: "cut_off offline" by (simp add: cut_off_def offline_def)
  have e: "closed_without_result fetch_cache_or_web cut_off" by (rule cut_off_closed)
  have p: "1 < processed None (length (index (two_rows ''a'' ''b'')))"
    by (simp add: processed_None two_rows_def)
  note t = unreachable_service_not_found [of no_table fetch_cache_or_web no_country True None
      "two_rows ''a'' ''b''" offline cut_off False,
      THEN conjunct2, THEN conjunct2, THEN conjunct2, rule_format, OF conjI [OF a conjI [OF b conjI [OF c e]]]]
  from a b c e t [THEN conjunct1] t [THEN conjunct2, rule_format, OF p]
  show ?thesis by (intro conjI) simp_all
qed

text \<open>
  Against claim C5: the request of line 160 fails, the cache is empty, and the service
  answers afterwards.  The query of the record goes to the service, and the record gets
  a result and the flag \<^verbatim>\<open>True\<close>.
\<close>
theorem probe_failure_counterexample:
  "cache back_online = []
   \<and> cell_at (data (get_geoID no_table fetch_cache_or_web no_country False False None
                 (one_row 0 ''a'') back_online)) ''geoID'' 0 = Json [1]
   \<and> cell_at (data (get_geoID no_table fetch_cache_or_web no_country False False None
                 (one_row 0 ''a'') back_online)) ''exactlocation'' 0 = Flag True
   \<and> calls (world (get_geoID no_table fetch_cache_or_web no_country False False None
                 (one_row 0 ''a'') back_online)) = [''q=a&format=json'']"
  by code_simp

text \<open>
  Claim C9, as the code has it.  The pass works on the caller's frame in place.  The
  column \<^verbatim>\<open>adr\<close> and every column other than \<^verbatim>\<open>geohint\<close>, \<^verbatim>\<open>geoID\<close> and
  \<^verbatim>\<open>exactlocation\<close> are returned as they were given; the column \<^verbatim>\<open>geohint\<close> is written
  (lines 178 to 191) and the rows are renumbered from 0 (line 197).
\<close>
theorem columns_of_the_caller:
  assumes "cols d ''adr'' = Some adr"
  shows "cols (data (get_geoID tr fetch cc probe_ok progress killswitch d w)) ''adr'' = Some adr
       \<and> (\<forall>name. name \<noteq> ''geohint'' \<and> name \<noteq> ''geoID'' \<and> name \<noteq> ''exactlocation'' \<longrightarrow>
             cols (data (get_geoID tr fetch cc probe_ok progress killswitch d w)) name = cols d name)
       \<and> cols (data (get_geoID tr fetch cc probe_ok progress killswitch d w)) ''geohint''
           = Some (replace_str geohint_of adr)
       \<and> index (data (get_geoID tr fetch cc probe_ok progress killswitch d w))
           = map int [0..<length (index d)]"
proof -
  let ?n = "length (index d)"
  let ?rows = "zip [0..<?n] (replace_str geohint_of adr)"
  obtain s0 where s0: "data s0 = prepared d adr"
    and run: "data (get_geoID tr fetch cc probe_ok progress killswitch d w)
           = data (rows_loop tr fetch cc progress killswitch ?n ?rows s0)"
    using get_geoID_loop [OF assms] by metis
  have other: "cols (data (get_geoID tr fetch cc probe_ok progress killswitch d w)) name
               = cols (prepared d adr) name"
    if "name \<noteq> ''geoID''" "name \<noteq> ''exactlocation''" for name
    unfolding run using that by (simp add: rows_loop_other s0)
  have 1: "cols (data (get_geoID tr fetch cc probe_ok progress killswitch d w)) ''adr'' = Some adr"
    by (simp add: other prepared_def assms)
  have 2: "\<forall>name. name \<noteq> ''geohint'' \<and> name \<noteq> ''geoID'' \<and> name \<noteq> ''exactlocation'' \<longrightarrow>
             cols (data (get_geoID tr fetch cc probe_ok progress killswitch d w)) name = cols d name"
    by (simp add: other prepared_def)
  have 3: "cols (data (get_geoID tr fetch cc probe_ok progress killswitch d w)) ''geohint''
           = Some (replace_str geohint_of adr)"
    by (simp add: other prepared_def)
  have 4: "index (data (get_geoID tr fetch cc probe_ok progress killswitch d w))
           = map int [0..<length (index d)]"
    unfolding run by (simp add: rows_loop_index s0 prepared_def)
  from 1 2 3 4 show ?thesis by (intro conjI)
qed

theorem columns_of_the_caller_witness:
  "cols (one_row 7 ''a'') ''adr'' = Some [Str ''a'']
   \<and> cols (data (get_geoID no_table nothing no_country True False None (one_row 7 ''a'') ())) ''adr''
       = Some [Str ''a'']
   \<and> cols (data (get_geoID no_table nothing no_country True False None (one_row 7 ''a'') ())) ''geohint''
       = Some (replace_str geohint_of [Str ''a''])"
proof -
  have a: "cols (one_row 7 ''a'') ''adr'' = Some [Str ''a'' :: nat cell]"
    by (simp add: one_row_def)
  note t = columns_of_the_caller [OF a, of no_table nothing no_country True False None "()"]
  from a t [THEN conjunct1] t [THEN conjunct2, THEN conjunct2, THEN conjunct1]
  show ?thesis by (intro conjI)
qed

text \<open>
  Against claim C9: a frame of one record labelled 7 comes back with the label 0 and
  with a column \<^verbatim>\<open>geoID\<close> it did not have.
\<close>
theorem frame_changed_counterexample:
  "index (one_row 7 ''a'') = [7]
   \<and> index (data (get_geoID no_table nothing no_country True False None (one_row 7 ''a'') ())) = [0]
   \<and> cols (one_row 7 ''a'') ''geoID'' = None
   \<and> cols (data (get_geoID no_table nothing no_country True False None (one_row 7 ''a'') ())) ''geoID''
       = Some [Str ''not found'']"
  by code_simp

section \<open>Normalizing a segment again\<close>

text \<open>
  The segments of \<open>normalize\<close> are the ones the loop of line 225 resolves, in its order.
\<close>

lemma resolve_elems_normalize:
  "resolve_elems fetch cc elems st
     = foldl (\<lambda>st e. resolve_elem fetch cc e st) st
         (filter (\<lambda>e. e \<noteq> []) (map clean_elem elems))"
  by (induction elems arbitrary: st) (simp_all add: Let_def)

lemma resolve_row_normalize:
  "resolve_row tr fetch cc (geohint_of adr) w
     = foldl (\<lambda>st e. resolve_elem fetch cc e st) ([], False, w) (normalize tr adr)"
  by (simp add: resolve_row_def normalize_def resolve_elems_normalize)

lemma paren_body_closing:
  "paren_body s = Some r \<Longrightarrow> CHR '')'' \<in> set s \<or> CHR ''@'' \<in> set s"
proof (induction s)
  case Nil
  then show ?case by simp
next
  case (Cons c cs)
  show ?case
  proof (cases "right_paren (c # cs)")
    case None
    with Cons show ?thesis by (auto split: if_splits option.splits)
  next
    case (Some n)
    then have "c = CHR '')'' \<or> c = CHR ''@''"
      by (auto simp: right_paren_def starts_with_def split: if_splits)
    then show ?thesis by auto
  qed
qed

lemma remove_parenthesis_plain:
  "no_paren_pair s \<Longrightarrow> CHR ''@'' \<notin> set s \<Longrightarrow> remove_parenthesis s = s"
proof (induction s)
  case Nil
  show ?case by simp
next
  case (Cons c cs)
  have "paren_match (c # cs) = None"
  proof (cases "c = CHR ''(''")
    case True
    with Cons.prems have "CHR '')'' \<notin> set cs" "CHR ''@'' \<notin> set cs" by simp_all
    with paren_body_closing [of cs] have "paren_body cs = None" by (cases "paren_body cs") auto
    with True show ?thesis by (simp add: paren_match_def left_paren_def starts_with_def)
  next
    case False
    with Cons.prems have "left_paren (c # cs) = None"
      by (auto simp: left_paren_def starts_with_def)
    then show ?thesis by (simp add: paren_match_def)
  qed
  with Cons show ?case by simp
qed

lemma sub_run_none: "\<forall>c \<in> set s. \<not> P c \<Longrightarrow> sub_run P rep s = s"
  by (induction s) simp_all

lemma first_not_comma:
  "tidy_commas s \<Longrightarrow> s = [] \<or> hd s \<noteq> CHR '','' \<Longrightarrow>
     dropWhile is_space s = [] \<or> hd (dropWhile is_space s) \<noteq> CHR '',''"
proof (induction s rule: tidy_commas.induct)
  case 1
  show ?case by simp
next
  case (2 c)
  then show ?case by simp
next
  case (3 c d r)
  then show ?case by auto
qed

lemma strip_leading_comma_tidy:
  assumes "tidy_commas s" and "s = [] \<or> hd s \<noteq> CHR '',''"
  shows "strip_leading_comma s = s"
proof (cases "dropWhile is_space s")
  case Nil
  then show ?thesis by (simp only: strip_leading_comma_def list.case)
next
  case (Cons c r)
  with first_not_comma [OF assms] have "c \<noteq> CHR '',''" by simp
  with Cons show ?thesis by (simp only: strip_leading_comma_def list.case) simp
qed

lemma unidecode_ascii: "list_all is_ascii s \<Longrightarrow> unidecode tr s = s"
  by (induction s) (simp_all add: unidecode_def)

lemma remove_copyright_plain: "no_paren_pair s \<Longrightarrow> remove_copyright s = s"
proof (induction s)
  case Nil
  show ?case by simp
next
  case (Cons c cs)
  have "\<not> starts_with ''(c)'' (c # cs)"
  proof
    assume "starts_with ''(c)'' (c # cs)"
    then have o: "c = CHR ''(''" and t: "take (Suc (Suc 0)) cs = ''c)''"
      by (simp_all add: starts_with_def)
    have "CHR '')'' \<in> set (take (Suc (Suc 0)) cs)" by (simp only: t) simp
    then have "CHR '')'' \<in> set cs" by (rule in_set_takeD)
    with o show False using Cons.prems by simp
  qed
  with Cons show ?case by simp
qed

lemma split_tags_lower: "\<forall>c \<in> set s. \<not> is_upper c \<Longrightarrow> split_tags s = [s]"
  by (induction s) (simp_all add: cons_hd_def)

lemma py_strip_ends:
  assumes "s \<noteq> []" and "hd s \<notin> set chars" and "last s \<notin> set chars"
  shows "py_strip chars s = s"
proof -
  have 1: "dropWhile (\<lambda>c. c \<in> set chars) s = s"
    using assms(1,2) by (cases s) simp_all
  have "rev s \<noteq> []" "hd (rev s) \<notin> set chars"
    using assms(1,3) by (simp_all add: hd_rev)
  then have 2: "dropWhile (\<lambda>c. c \<in> set chars) (rev s) = rev s"
    by (cases "rev s") simp_all
  show ?thesis by (simp add: py_strip_def 1 2)
qed

lemma lower_char_plain: "is_ascii c \<Longrightarrow> \<not> is_upper c \<Longrightarrow> lower_char c = c"
  by (auto simp: lower_char_def is_ascii_def is_upper_def Let_def)

lemma py_lower_plain: "list_all (\<lambda>c. is_ascii c \<and> \<not> is_upper c) s \<Longrightarrow> py_lower s = s"
  by (induction s) (simp_all add: py_lower_def lower_char_plain)

lemma comma_units_none: "comma_unit s = None \<Longrightarrow> comma_units s = s"
  by (subst comma_units.simps) simp

lemma factorize_commas_tidy: "tidy_commas s \<Longrightarrow> factorize_commas s = s"
proof (induction s rule: tidy_commas.induct)
  case 1
  show ?case by simp
next
  case (2 c)
  show ?case by (simp add: comma_units_none)
next
  case (3 c d r)
  from "3.prems" have t: "tidy_commas (d # r)"
    and n: "\<not> (d = CHR '','' \<and> (is_space c \<or> c = CHR '',''))" by simp_all
  have ih: "factorize_commas (d # r) = d # r" using t by (rule "3.IH")
  show ?case
  proof (cases "c = CHR '',''")
    case True
    with n have d: "d \<noteq> CHR '',''" by simp
    have "comma_unit (d # r) = None"
    proof (cases r)
      case Nil
      with d show ?thesis by simp
    next
      case (Cons e r')
      with t d show ?thesis by auto
    qed
    then have "comma_units (d # r) = d # r" by (rule comma_units_none)
    with True d ih show ?thesis by simp
  next
    case False
    with n ih show ?thesis by auto
  qed
qed

lemma normalize_settled:
  assumes "settled s"
  shows "normalize tr s = [s]"
proof -
  from assms have ne: "s \<noteq> []" and pl: "list_all plain_char s"
    and h: "hd s \<notin> set [CHR '' '', CHR 0x0A, CHR 0x0D, CHR ''.'', CHR '';'', CHR '','', CHR '':'']"
    and l: "last s \<notin> set [CHR '' '', CHR 0x0A, CHR 0x0D, CHR ''.'', CHR '';'', CHR '','', CHR '':'']"
    and t: "tidy_commas s"
    by (simp_all add: settled_def)
  from pl have chars: "\<forall>c \<in> set s. plain_char c" by (simp add: list_all_iff)
  from assms have pp: "no_paren_pair s" by (simp add: settled_def)
  have p: "CHR ''@'' \<notin> set s" "CHR 0x22 \<notin> set s"
    using chars by (auto simp: plain_char_def)
  have sp: "\<forall>c \<in> set s. \<not> is_special c" and nl: "\<forall>c \<in> set s. \<not> is_newline c"
    and up: "\<forall>c \<in> set s. \<not> is_upper c"
    using chars by (auto simp: plain_char_def)
  have asc: "list_all is_ascii s" using chars by (simp add: list_all_iff plain_char_def)
  have low: "list_all (\<lambda>c. is_ascii c \<and> \<not> is_upper c) s"
    using chars by (simp add: list_all_iff plain_char_def)
  have hc: "s = [] \<or> hd s \<noteq> CHR '',''" using h by simp
  have g: "geohint_of s = s"
    by (simp add: geohint_of_def remove_parenthesis_plain [OF pp p(1)] sub_run_none [OF sp]
          sub_run_none [OF nl] strip_leading_comma_tidy [OF t hc])
  have q: "filter (\<lambda>c. c \<noteq> CHR 0x22) s = s" using p(2) by (auto simp: filter_id_conv)
  have a: "filter (\<lambda>c. c \<noteq> CHR ''@'') s = s" using p(1) by (auto simp: filter_id_conv)
  have r: "split_row tr s = [s]"
    by (simp add: split_row_def unidecode_ascii [OF asc] remove_illegal_def q
          remove_copyright_plain [OF pp] a split_tags_lower [OF up])
  have c: "clean_elem s = s"
    by (simp only: clean_elem_def py_strip_ends [OF ne h l] py_lower_plain [OF low]
          factorize_commas_tidy [OF t])
  show ?thesis using ne by (simp add: normalize_def g r c)
qed

subsection \<open>Characters and their lower case\<close>

lemma char_eq_code: "(c = d) = (code c = code d)"
  by (simp add: code_def)

lemma code_lower:
  "code (lower_char c)
     = (if (65 \<le> code c \<and> code c \<le> 90) \<or> (192 \<le> code c \<and> code c \<le> 222 \<and> code c \<noteq> 215)
        then code c + 32 else code c)"
  by (auto simp: lower_char_def Let_def code_def)

lemma is_space_lower: "is_space (lower_char c) = is_space c"
  by (auto simp: is_space_def Let_def code_lower)

lemma lower_stripped:
  "lower_char c \<in> set [CHR '' '', CHR 0x0A, CHR 0x0D, CHR ''.'', CHR '';'', CHR '','', CHR '':'']
     \<Longrightarrow> c \<in> set [CHR '' '', CHR 0x0A, CHR 0x0D, CHR ''.'', CHR '';'', CHR '','', CHR '':'']"
  by (auto simp: char_eq_code code_lower split: if_splits) (simp_all add: code_def)

lemma lower_space: "is_space c \<Longrightarrow> c = CHR '' '' \<Longrightarrow> lower_char c = CHR '' ''"
  by (simp add: char_eq_code code_lower) (simp add: code_def)

lemma plain_lower:
  assumes "is_ascii c" and "\<not> is_special c" and "\<not> is_newline c"
      and "c \<notin> set [CHR ''@'', CHR 0x22]"
  shows "plain_char (lower_char c)"
proof (cases "65 \<le> code c \<and> code c \<le> 90")
  case True
  then have "code (lower_char c) = code c + 32" by (simp add: code_lower)
  with True show ?thesis
    by (auto simp: plain_char_def is_ascii_def is_upper_def is_special_def is_newline_def
          Let_def char_eq_code) (simp_all add: code_def)
next
  case False
  with assms(1) have "lower_char c = c"
    by (auto simp: char_eq_code code_lower is_ascii_def)
  with assms False show ?thesis
    by (simp add: plain_char_def is_upper_def Let_def)
qed


lemma lower_paren: "(lower_char c = CHR ''('') = (c = CHR ''('')" "(lower_char c = CHR '')'') = (c = CHR '')'')"
  by (auto simp: char_eq_code code_lower) (simp_all add: code_def)

subsection \<open>White space left as single spaces\<close>

lemma length_sub_run: "length rep \<le> 1 \<Longrightarrow> length (sub_run P rep s) \<le> length s"
proof (induction P rep s rule: sub_run.induct)
  case (1 P rep)
  show ?case by simp
next
  case (2 P rep c cs)
  show ?case
  proof (cases "P c")
    case True
    with 2 have "length (sub_run P rep (dropWhile P cs)) \<le> length (dropWhile P cs)" by simp
    also have "\<dots> \<le> length cs" by (rule length_dropWhile_le)
    finally show ?thesis using True "2.prems" by simp
  next
    case False
    with 2 show ?thesis by simp
  qed
qed

lemma dropWhile_full: "length s \<le> length (dropWhile P s) \<Longrightarrow> dropWhile P s = s"
proof (cases s)
  case Nil
  then show ?thesis by simp
next
  case (Cons c cs)
  assume l: "length s \<le> length (dropWhile P s)"
  show ?thesis
  proof (cases "P c")
    case True
    have "length (dropWhile P cs) \<le> length cs" by (rule length_dropWhile_le)
    with l Cons True show ?thesis by simp
  next
    case False
    with Cons show ?thesis by simp
  qed
qed

lemma single_spaces:
  "factorize_spaces s = s \<Longrightarrow> no_space_pair s \<and> (\<forall>c \<in> set s. is_space c \<longrightarrow> c = CHR '' '')"
proof (induction s)
  case Nil
  show ?case by simp
next
  case (Cons c cs)
  show ?case
  proof (cases "is_space c")
    case True
    then have e: "sub_run is_space '' '' (c # cs)
        = '' '' @ sub_run is_space '' '' (dropWhile is_space cs)"
      by (simp only: sub_run.simps if_True)
    from Cons.prems have "sub_run is_space '' '' (c # cs) = c # cs"
      by (simp only: factorize_spaces_def)
    then have k: "CHR '' '' # sub_run is_space '' '' (dropWhile is_space cs) = c # cs"
      unfolding e by (simp only: append_Cons append_Nil)
    note c = k [unfolded list.inject, THEN conjunct1, symmetric]
    note r = k [unfolded list.inject, THEN conjunct2]
    have "length (sub_run is_space '' '' (dropWhile is_space cs)) \<le> length (dropWhile is_space cs)"
      by (rule length_sub_run) simp
    with r have "length cs \<le> length (dropWhile is_space cs)" by simp
    then have d: "dropWhile is_space cs = cs" by (rule dropWhile_full)
    with r have "factorize_spaces cs = cs" by (simp add: factorize_spaces_def)
    then have ih: "no_space_pair cs \<and> (\<forall>c \<in> set cs. is_space c \<longrightarrow> c = CHR '' '')"
      by (rule Cons.IH)
    have "no_space_pair (c # cs)"
    proof (cases cs)
      case Nil
      then show ?thesis by simp
    next
      case (Cons e r')
      from d have "cs = [] \<or> \<not> is_space (hd cs)" by (simp only: dropWhile_eq_self_iff)
      with Cons have "\<not> is_space e" by simp
      with ih Cons show ?thesis by simp
    qed
    with ih c show ?thesis by simp
  next
    case False
    with Cons.prems have "factorize_spaces cs = cs" by (simp add: factorize_spaces_def)
    then have ih: "no_space_pair cs \<and> (\<forall>c \<in> set cs. is_space c \<longrightarrow> c = CHR '' '')"
      by (rule Cons.IH)
    have "no_space_pair (c # cs)" using False ih by (cases cs) simp_all
    with ih False show ?thesis by simp
  qed
qed

subsection \<open>Parts of a text\<close>

lemma no_space_pair_append: "no_space_pair (a @ b) \<Longrightarrow> no_space_pair a \<and> no_space_pair b"
proof (induction a)
  case Nil
  then show ?case by simp
next
  case (Cons c a)
  note p = Cons.prems and ih = Cons.IH
  show ?case
  proof (cases a)
    case Nil
    with p show ?thesis by (cases b) simp_all
  next
    case (Cons d r)
    with p ih show ?thesis by simp
  qed
qed

lemma no_space_pair_sublist: "sublist xs ys \<Longrightarrow> no_space_pair ys \<Longrightarrow> no_space_pair xs"
proof -
  assume "sublist xs ys" and n: "no_space_pair ys"
  then obtain ps ss where "ys = ps @ xs @ ss" by (auto simp: sublist_def)
  with n have "no_space_pair (xs @ ss)" using no_space_pair_append [of ps "xs @ ss"] by simp
  then show ?thesis using no_space_pair_append [of xs ss] by simp
qed

lemma no_paren_pair_append: "no_paren_pair (a @ b) \<Longrightarrow> no_paren_pair a \<and> no_paren_pair b"
  by (induction a) auto

lemma no_paren_pair_sublist: "sublist xs ys \<Longrightarrow> no_paren_pair ys \<Longrightarrow> no_paren_pair xs"
proof -
  assume "sublist xs ys" and n: "no_paren_pair ys"
  then obtain ps ss where "ys = ps @ xs @ ss" by (auto simp: sublist_def)
  with n have "no_paren_pair (xs @ ss)" using no_paren_pair_append [of ps "xs @ ss"] by simp
  then show ?thesis using no_paren_pair_append [of xs ss] by simp
qed

lemma no_space_pair_lower: "no_space_pair (py_lower s) = no_space_pair s"
  by (induction s rule: no_space_pair.induct) (simp_all add: py_lower_def is_space_lower)

lemma closing_lower: "(CHR '')'' \<in> set (py_lower s)) = (CHR '')'' \<in> set s)"
proof (induction s)
  case Nil
  show ?case by (simp add: py_lower_def)
next
  case (Cons c cs)
  have "(CHR '')'' = lower_char c) = (CHR '')'' = c)" using lower_paren(2) [of c] by auto
  with Cons show ?case by (simp add: py_lower_def)
qed

lemma no_paren_pair_lower: "no_paren_pair (py_lower s) = no_paren_pair s"
proof (induction s)
  case Nil
  show ?case by (simp add: py_lower_def)
next
  case (Cons c cs)
  have "py_lower (c # cs) = lower_char c # py_lower cs" by (simp add: py_lower_def)
  with Cons closing_lower [of cs] show ?case by (simp add: lower_paren)
qed

subsection \<open>The pieces between the tags\<close>

lemma sublist_in: "sublist p r \<Longrightarrow> sublist r t \<Longrightarrow> sublist p t"
proof -
  assume "sublist p r" and "sublist r t"
  then obtain a b c d where "r = a @ p @ b" and "t = c @ r @ d" by (auto simp: sublist_def)
  then have "t = (c @ a) @ p @ (b @ d)" by simp
  then show ?thesis unfolding sublist_def by blast
qed

lemma split_tags_pieces:
  "split_tags t \<noteq> [] \<and> prefix (hd (split_tags t)) t \<and> (\<forall>p \<in> set (split_tags t). sublist p t)"
proof (induction t rule: split_tags.induct)
  case 1
  show ?case by simp
next
  case (2 c cs)
  show ?case
  proof (cases "is_upper c \<and> starts_with '': '' (dropWhile is_upper cs)")
    case True
    let ?r = "drop 2 (dropWhile is_upper cs)"
    from True 2 have ih: "\<forall>p \<in> set (split_tags ?r). sublist p ?r" by simp
    have "suffix ?r (dropWhile is_upper cs)" by (rule suffix_drop)
    moreover have "suffix (dropWhile is_upper cs) cs" by (rule suffix_dropWhile)
    ultimately have "suffix ?r cs" by (rule suffix_order.trans)
    then have "suffix ?r (c # cs)" by (rule suffix_ConsI)
    then have s: "sublist ?r (c # cs)" by (rule suffix_imp_sublist)
    have "\<forall>p \<in> set (split_tags ?r). sublist p (c # cs)"
    proof
      fix p assume "p \<in> set (split_tags ?r)"
      with ih have "sublist p ?r" by simp
      then show "sublist p (c # cs)" using s by (rule sublist_in)
    qed
    with True show ?thesis by simp
  next
    case False
    with 2 have ih: "split_tags cs \<noteq> []" "prefix (hd (split_tags cs)) cs"
      "\<forall>p \<in> set (split_tags cs). sublist p cs" by simp_all
    from ih(1) obtain p0 ps where sp: "split_tags cs = p0 # ps" by (cases "split_tags cs") auto
    with False have e: "split_tags (c # cs) = (c # p0) # ps" by (simp add: cons_hd_def)
    from ih(2) sp have "prefix (c # p0) (c # cs)" by simp
    moreover have "\<forall>p \<in> set ps. sublist p (c # cs)"
      using ih(3) sp by (simp add: sublist_Cons_right)
    ultimately show ?thesis unfolding e by simp
  qed
qed

subsection \<open>Stripping both ends\<close>

lemma py_strip_sublist: "sublist (py_strip chars s) s"
proof -
  let ?P = "\<lambda>c. c \<in> set chars"
  let ?u = "dropWhile ?P s"
  let ?v = "dropWhile ?P (rev ?u)"
  have a: "rev (takeWhile ?P (rev ?u) @ ?v) = ?u" by simp
  have b: "rev (takeWhile ?P (rev ?u) @ ?v) = rev ?v @ rev (takeWhile ?P (rev ?u))"
    by (rule rev_append)
  have u: "?u = rev ?v @ rev (takeWhile ?P (rev ?u))" by (rule trans [OF a [symmetric] b])
  have "sublist (rev ?v) ?u" by (subst (2) u) (rule sublist_append_rightI)
  moreover have "sublist ?u s" by (rule suffix_imp_sublist) (rule suffix_dropWhile)
  ultimately have "sublist (rev ?v) s" by (rule sublist_in)
  then show ?thesis by (simp add: py_strip_def)
qed

lemma py_strip_last: "py_strip chars s \<noteq> [] \<Longrightarrow> last (py_strip chars s) \<notin> set chars"
proof -
  let ?P = "\<lambda>c. c \<in> set chars"
  let ?v = "dropWhile ?P (rev (dropWhile ?P s))"
  assume "py_strip chars s \<noteq> []"
  then have "?v \<noteq> []" by (simp add: py_strip_def)
  then have "\<not> ?P (hd ?v)" by (rule hd_dropWhile)
  then show ?thesis by (simp add: py_strip_def last_rev)
qed

lemma py_strip_hd: "py_strip chars s \<noteq> [] \<Longrightarrow> hd (py_strip chars s) \<notin> set chars"
proof -
  let ?P = "\<lambda>c. c \<in> set chars"
  let ?u = "dropWhile ?P s"
  let ?v = "dropWhile ?P (rev ?u)"
  assume "py_strip chars s \<noteq> []"
  then have v: "?v \<noteq> []" by (simp add: py_strip_def)
  have "rev ?u \<noteq> []"
  proof
    assume "rev ?u = []"
    then have "?v = []" by (simp only: dropWhile.simps)
    with v show False ..
  qed
  then have u: "?u \<noteq> []" by simp
  have "last (takeWhile ?P (rev ?u) @ ?v) = last ?v" using v by (rule last_appendR)
  moreover have "takeWhile ?P (rev ?u) @ ?v = rev ?u" by (rule takeWhile_dropWhile_id)
  ultimately have "last ?v = last (rev ?u)" by simp
  then have "last ?v = hd ?u" by (simp only: last_rev)
  moreover have "\<not> ?P (hd ?u)" using u by (rule hd_dropWhile)
  ultimately show ?thesis by (simp add: py_strip_def hd_rev)
qed

subsection \<open>Commas\<close>

lemma comma_unit_Some:
  "comma_unit s = Some r \<Longrightarrow> s = CHR '','' # r \<or> (\<exists>c. is_space c \<and> s = c # CHR '','' # r)"
  by (induction s rule: comma_unit.induct) (auto split: if_splits)

lemma comma_unit_None_hd: "comma_unit (c # cs) = None \<Longrightarrow> c \<noteq> CHR '',''"
  by (cases cs) (auto split: if_splits)

lemma comma_unit_plain_hd: "\<not> is_space c \<Longrightarrow> c \<noteq> CHR '','' \<Longrightarrow> comma_unit (c # cs) = None"
  by (cases cs) simp_all

lemma comma_units_rest:
  "comma_unit (comma_units s) = None
   \<and> (\<exists>u. s = u @ comma_units s \<and> (u = [] \<or> last u = CHR '',''))"
proof (induction s rule: comma_units.induct)
  case (1 s)
  show ?case
  proof (cases "comma_unit s")
    case None
    then have "comma_units s = s" by (subst comma_units.simps) simp
    with None show ?thesis by simp
  next
    case (Some r)
    then have e: "comma_units s = comma_units r" by (subst comma_units.simps) simp
    from 1 Some have n: "comma_unit (comma_units r) = None"
      and "\<exists>u. r = u @ comma_units r \<and> (u = [] \<or> last u = CHR '','')" by simp_all
    then obtain u where u: "r = u @ comma_units r" and l: "u = [] \<or> last u = CHR '',''" by blast
    from comma_unit_Some [OF Some] obtain pre where pre: "s = pre @ r" and lp: "pre \<noteq> []"
      "last pre = CHR '',''"
    proof
      assume "s = CHR '','' # r"
      then have "s = '','' @ r" by simp
      then show ?thesis using that [of "'',''"] by simp
    next
      assume "\<exists>c. is_space c \<and> s = c # CHR '','' # r"
      then obtain c where "s = [c, CHR '',''] @ r" by auto
      then show ?thesis using that [of "[c, CHR '','']"] by simp
    qed
    from pre u have "s = (pre @ u) @ comma_units r" by simp
    moreover have "last (pre @ u) = CHR '',''" using l lp by (cases "u = []") simp_all
    ultimately have "\<exists>u. s = u @ comma_units s \<and> (u = [] \<or> last u = CHR '','')"
      unfolding e by blast
    with n e show ?thesis by simp
  qed
qed

lemma comma_units_parts:
  obtains u where "s = u @ comma_units s" and "u = [] \<or> last u = CHR '',''"
  using comma_units_rest [of s] by blast

lemma comma_unit_parts:
  assumes "comma_unit s = Some r"
  obtains u where "s = u @ comma_units r" and "u \<noteq> []" and "last u = CHR '',''"
proof -
  from comma_unit_Some [OF assms] obtain pre where pre: "s = pre @ r" and lp: "pre \<noteq> []"
    "last pre = CHR '',''"
  proof
    assume "s = CHR '','' # r"
    then have "s = '','' @ r" by simp
    then show ?thesis using that [of "'',''"] by simp
  next
    assume "\<exists>c. is_space c \<and> s = c # CHR '','' # r"
    then obtain c where "s = [c, CHR '',''] @ r" by auto
    then show ?thesis using that [of "[c, CHR '','']"] by simp
  qed
  obtain u where u: "r = u @ comma_units r" and l: "u = [] \<or> last u = CHR '',''"
    by (rule comma_units_parts)
  from pre u have "s = (pre @ u) @ comma_units r" by simp
  moreover have "pre @ u \<noteq> []" using lp by simp
  moreover have "last (pre @ u) = CHR '',''" using l lp by (cases "u = []") simp_all
  ultimately show ?thesis by (rule that)
qed

lemma set_factorize_commas: "set (factorize_commas t) \<subseteq> set t"
proof (induction t rule: factorize_commas.induct)
  case 1
  show ?case by simp
next
  case (2 c cs)
  show ?case
  proof (cases "comma_unit (c # cs)")
    case None
    with 2 show ?thesis by auto
  next
    case (Some r)
    with 2 have ih: "set (factorize_commas (comma_units r)) \<subseteq> set (comma_units r)" by simp
    from Some obtain u where u: "c # cs = u @ comma_units r" and ne: "u \<noteq> []"
      and l: "last u = CHR '',''" by (rule comma_unit_parts)
    from ne l have "CHR '','' \<in> set u" using last_in_set [of u] by simp
    with u have "CHR '','' \<in> set (c # cs)" by simp
    moreover from u have "set (comma_units r) \<subseteq> set (c # cs)" by simp
    ultimately have "set (CHR '','' # factorize_commas (comma_units r)) \<subseteq> set (c # cs)"
      using ih by auto
    with Some show ?thesis by simp
  qed
qed

lemma factorize_commas_last:
  "t \<noteq> [] \<Longrightarrow> last t \<noteq> CHR '','' \<Longrightarrow>
     factorize_commas t \<noteq> [] \<and> last (factorize_commas t) = last t"
proof (induction t rule: factorize_commas.induct)
  case 1
  then show ?case by simp
next
  case (2 c cs)
  show ?case
  proof (cases "comma_unit (c # cs)")
    case None
    then have f: "factorize_commas (c # cs) = c # factorize_commas cs" by simp
    show ?thesis
    proof (cases "cs = []")
      case True
      then show ?thesis unfolding f by simp
    next
      case False
      with "2.prems" have "last cs \<noteq> CHR '',''" by simp
      with False None 2 have "factorize_commas cs \<noteq> [] \<and> last (factorize_commas cs) = last cs"
        by simp
      with False show ?thesis unfolding f by simp
    qed
  next
    case (Some r)
    then have f: "factorize_commas (c # cs) = CHR '','' # factorize_commas (comma_units r)"
      by simp
    from Some obtain u where u: "c # cs = u @ comma_units r" and ne: "u \<noteq> []"
      and l: "last u = CHR '',''" by (rule comma_unit_parts)
    have r: "comma_units r \<noteq> []"
    proof
      assume "comma_units r = []"
      with u l have "last (c # cs) = CHR '',''" by simp
      with "2.prems" show False by simp
    qed
    with u have lr: "last (comma_units r) = last (c # cs)" by simp
    with "2.prems" have "last (comma_units r) \<noteq> CHR '',''" by simp
    with r Some 2 have "factorize_commas (comma_units r) \<noteq> []
        \<and> last (factorize_commas (comma_units r)) = last (comma_units r)" by simp
    with lr show ?thesis unfolding f by simp
  qed
qed

lemma factorize_commas_comma:
  "factorize_commas t = CHR '','' # f \<Longrightarrow> comma_unit t \<noteq> None"
proof (cases t)
  case Nil
  assume "factorize_commas t = CHR '','' # f"
  with Nil show ?thesis by simp
next
  case (Cons c cs)
  assume a: "factorize_commas t = CHR '','' # f"
  show ?thesis
  proof
    assume n: "comma_unit t = None"
    with Cons have "c \<noteq> CHR '',''" by (simp add: comma_unit_None_hd)
    moreover from n Cons a have "c = CHR '',''" by simp
    ultimately show False ..
  qed
qed

lemma tidy_Cons:
  "tidy_commas f \<Longrightarrow> (f \<noteq> [] \<Longrightarrow> hd f = CHR '','' \<Longrightarrow> \<not> is_space c \<and> c \<noteq> CHR '','')
     \<Longrightarrow> tidy_commas (c # f)"
  by (cases f) auto

lemma tidy_factorize_commas: "no_space_pair t \<Longrightarrow> tidy_commas (factorize_commas t)"
proof (induction t rule: factorize_commas.induct)
  case 1
  show ?case by simp
next
  case (2 c cs)
  show ?case
  proof (cases "comma_unit (c # cs)")
    case None
    then have f: "factorize_commas (c # cs) = c # factorize_commas cs" by simp
    from "2.prems" have "no_space_pair cs" using no_space_pair_append [of "[c]" cs] by simp
    with None 2 have t: "tidy_commas (factorize_commas cs)" by simp
    have "\<not> is_space c \<and> c \<noteq> CHR '',''"
      if "factorize_commas cs \<noteq> []" and "hd (factorize_commas cs) = CHR '',''"
    proof -
      from that obtain f' where "factorize_commas cs = CHR '','' # f'"
        by (cases "factorize_commas cs") auto
      then have "comma_unit cs \<noteq> None" by (rule factorize_commas_comma)
      then obtain r where "comma_unit cs = Some r" by auto
      from comma_unit_Some [OF this]
      have "\<not> is_space c"
      proof
        assume cs: "cs = CHR '','' # r"
        show ?thesis
        proof
          assume "is_space c"
          with cs have "comma_unit (c # cs) = Some r" by simp
          with None show False by simp
        qed
      next
        assume "\<exists>d. is_space d \<and> cs = d # CHR '','' # r"
        then obtain d where d: "is_space d" and cs: "cs = d # CHR '','' # r" by blast
        from "2.prems" cs have "\<not> (is_space c \<and> is_space d)" by simp
        with d show ?thesis by simp
      qed
      moreover from None have "c \<noteq> CHR '',''" by (rule comma_unit_None_hd)
      ultimately show ?thesis ..
    qed
    with t show ?thesis unfolding f by (rule tidy_Cons)
  next
    case (Some r)
    then have f: "factorize_commas (c # cs) = CHR '','' # factorize_commas (comma_units r)"
      by simp
    from Some obtain u where u: "c # cs = u @ comma_units r" by (rule comma_unit_parts)
    with "2.prems" have "no_space_pair (comma_units r)"
      using no_space_pair_append [of u "comma_units r"] by simp
    with Some 2 have t: "tidy_commas (factorize_commas (comma_units r))" by simp
    have n: "comma_unit (comma_units r) = None" using comma_units_rest [of r] by simp
    have "factorize_commas (comma_units r) = [] \<or> hd (factorize_commas (comma_units r)) \<noteq> CHR '',''"
    proof (cases "comma_units r")
      case Nil
      then show ?thesis by simp
    next
      case (Cons e es)
      with n have "e \<noteq> CHR '',''" by (simp add: comma_unit_None_hd)
      with n Cons show ?thesis by simp
    qed
    with t show ?thesis unfolding f by (cases "factorize_commas (comma_units r)") auto
  qed
qed

lemma no_paren_pair_factorize_commas:
  "no_paren_pair t \<Longrightarrow> no_paren_pair (factorize_commas t)"
proof (induction t rule: factorize_commas.induct)
  case 1
  show ?case by simp
next
  case (2 c cs)
  show ?case
  proof (cases "comma_unit (c # cs)")
    case None
    then have f: "factorize_commas (c # cs) = c # factorize_commas cs" by simp
    from None 2 have "no_paren_pair (factorize_commas cs)" by simp
    moreover have "CHR '')'' \<notin> set (factorize_commas cs)" if "c = CHR ''(''"
      using that "2.prems" set_factorize_commas [of cs] by auto
    ultimately show ?thesis unfolding f by auto
  next
    case (Some r)
    then have f: "factorize_commas (c # cs) = CHR '','' # factorize_commas (comma_units r)"
      by simp
    from Some obtain u where u: "c # cs = u @ comma_units r" by (rule comma_unit_parts)
    with "2.prems" have "no_paren_pair (comma_units r)"
      using no_paren_pair_append [of u "comma_units r"] by simp
    with Some 2 have "no_paren_pair (factorize_commas (comma_units r))" by simp
    then show ?thesis unfolding f by simp
  qed
qed

subsection \<open>The segments of a regular text are settled\<close>

lemma clean_elem_settled:
  assumes ok: "\<forall>c \<in> set p. is_ascii c \<and> \<not> is_special c \<and> c \<noteq> CHR ''@'' \<and> c \<noteq> CHR 0x22
                 \<and> (is_space c \<longrightarrow> c = CHR '' '')"
      and sp: "no_space_pair p" and pp: "no_paren_pair p" and ne: "clean_elem p \<noteq> []"
  shows "settled (clean_elem p)"
proof -
  let ?chars = "[CHR '' '', CHR 0x0A, CHR 0x0D, CHR ''.'', CHR '';'', CHR '','', CHR '':'']"
  let ?e = "py_strip ?chars p"
  let ?l = "py_lower ?e"
  have c: "clean_elem p = factorize_commas ?l" by (simp only: clean_elem_def)
  have sub: "sublist ?e p" by (rule py_strip_sublist)
  have l_ne: "?l \<noteq> []"
  proof
    assume "?l = []"
    then have "factorize_commas ?l = []" by (simp only: factorize_commas.simps)
    with ne c show False by simp
  qed
  then have e_ne: "?e \<noteq> []" by (simp add: py_lower_def)
  have he: "hd ?e \<notin> set ?chars" using e_ne by (rule py_strip_hd)
  have le: "last ?e \<notin> set ?chars" using e_ne by (rule py_strip_last)
  have "hd ?l = lower_char (hd ?e)" using e_ne by (simp add: py_lower_def hd_map)
  with he have hl: "hd ?l \<notin> set ?chars" using lower_stripped [of "hd ?e"] by auto
  have "last ?l = lower_char (last ?e)" using e_ne by (simp add: py_lower_def last_map)
  with le have ll: "last ?l \<notin> set ?chars" using lower_stripped [of "last ?e"] by auto
  have chars: "plain_char d \<and> (is_space d \<longrightarrow> d = CHR '' '')" if "d \<in> set ?l" for d
  proof -
    from that obtain c' where d: "d = lower_char c'" and "c' \<in> set ?e"
      by (auto simp: py_lower_def)
    with set_mono_sublist [OF sub] have "c' \<in> set p" by auto
    with ok have a: "is_ascii c'" and s: "\<not> is_special c'" and q: "c' \<notin> set [CHR ''@'', CHR 0x22]"
      and w: "is_space c' \<longrightarrow> c' = CHR '' ''" by auto
    have n: "\<not> is_newline c'"
    proof
      assume "is_newline c'"
      then have "is_space c' \<and> c' \<noteq> CHR '' ''"
        by (auto simp: is_newline_def is_space_def code_def)
      with w show False by simp
    qed
    have "plain_char d" unfolding d using a s n q by (rule plain_lower)
    moreover have "d = CHR '' ''" if "is_space d"
    proof -
      from that have "is_space c'" by (simp add: d is_space_lower)
      moreover from this w have "c' = CHR '' ''" by simp
      ultimately show ?thesis unfolding d by (rule lower_space)
    qed
    ultimately show ?thesis by simp
  qed
  have spl: "no_space_pair ?l"
    using no_space_pair_sublist [OF sub sp] by (simp only: no_space_pair_lower)
  have ppl: "no_paren_pair ?l"
    using no_paren_pair_sublist [OF sub pp] by (simp only: no_paren_pair_lower)
  obtain h t where l: "?l = h # t" using l_ne by (cases ?l) auto
  from hl l have h: "h \<notin> set ?chars" by simp
  from chars [of h] l have "is_space h \<longrightarrow> h = CHR '' ''" by simp
  with h have "\<not> is_space h" and "h \<noteq> CHR '',''" by auto
  then have "comma_unit (h # t) = None" by (rule comma_unit_plain_hd)
  then have "factorize_commas (h # t) = h # factorize_commas t" by simp
  then have f_hd: "hd (factorize_commas ?l) = hd ?l" and f_ne: "factorize_commas ?l \<noteq> []"
    unfolding l by simp_all
  from ll have "last ?l \<noteq> CHR '',''" by auto
  with l_ne have f_last: "last (factorize_commas ?l) = last ?l"
    using factorize_commas_last [of ?l] by simp
  have tidy: "tidy_commas (factorize_commas ?l)" using spl by (rule tidy_factorize_commas)
  have paren: "no_paren_pair (factorize_commas ?l)" using ppl by (rule no_paren_pair_factorize_commas)
  have plain: "list_all plain_char (factorize_commas ?l)"
    unfolding list_all_iff
  proof
    fix d assume "d \<in> set (factorize_commas ?l)"
    with set_factorize_commas [of ?l] have "d \<in> set ?l" by auto
    with chars show "plain_char d" by simp
  qed
  show ?thesis
    unfolding settled_def c f_hd f_last using f_ne plain paren hl ll tidy by (intro conjI)
qed

lemma set_remove_copyright: "set (remove_copyright s) \<subseteq> set s"
proof (induction s rule: remove_copyright.induct)
  case 1
  show ?case by simp
next
  case (2 c cs)
  show ?case
  proof (cases "starts_with ''(c)'' (c # cs)")
    case True
    with 2 have "set (remove_copyright (drop 2 cs)) \<subseteq> set (drop 2 cs)" by simp
    also have "\<dots> \<subseteq> set cs" by (rule set_drop_subset)
    finally show ?thesis using True by auto
  next
    case False
    with 2 show ?thesis by auto
  qed
qed

lemma decoded_of_clear: "CHR ''@'' \<notin> set (decoded_of tr x) \<and> CHR 0x22 \<notin> set (decoded_of tr x)"
proof -
  let ?q = "filter (\<lambda>c. c \<noteq> CHR 0x22) (unidecode tr (geohint_of x))"
  have "CHR 0x22 \<notin> set ?q" by simp
  with set_remove_copyright [of ?q] have "CHR 0x22 \<notin> set (remove_copyright ?q)" by blast
  then show ?thesis by (simp add: decoded_of_def remove_illegal_def)
qed

lemma normalize_decoded_of:
  "normalize tr x = filter (\<lambda>e. e \<noteq> []) (map clean_elem (split_tags (decoded_of tr x)))"
  by (simp add: normalize_def split_row_def decoded_of_def)

lemma segments_settled:
  assumes "list_all (\<lambda>c. is_ascii c \<and> \<not> is_special c) (decoded_of tr x)"
      and "no_paren_pair (decoded_of tr x)"
      and "factorize_spaces (decoded_of tr x) = decoded_of tr x"
      and "s \<in> set (normalize tr x)"
  shows "settled s"
proof -
  let ?D = "decoded_of tr x"
  from assms(4) obtain p where p: "p \<in> set (split_tags ?D)" and s: "s = clean_elem p"
    and ne: "clean_elem p \<noteq> []" by (auto simp: normalize_decoded_of)
  from p split_tags_pieces [of ?D] have sub: "sublist p ?D" by simp
  note sp = single_spaces [OF assms(3)]
  have "\<forall>c \<in> set p. is_ascii c \<and> \<not> is_special c \<and> c \<noteq> CHR ''@'' \<and> c \<noteq> CHR 0x22
                 \<and> (is_space c \<longrightarrow> c = CHR '' '')"
  proof
    fix c assume "c \<in> set p"
    with set_mono_sublist [OF sub] have d: "c \<in> set ?D" by auto
    with assms(1) have "is_ascii c \<and> \<not> is_special c" by (simp add: list_all_iff)
    moreover from d decoded_of_clear [of tr x] have "c \<noteq> CHR ''@'' \<and> c \<noteq> CHR 0x22" by auto
    moreover from d sp have "is_space c \<longrightarrow> c = CHR '' ''" by simp
    ultimately show "is_ascii c \<and> \<not> is_special c \<and> c \<noteq> CHR ''@'' \<and> c \<noteq> CHR 0x22
                 \<and> (is_space c \<longrightarrow> c = CHR '' '')" by simp
  qed
  moreover have "no_space_pair p" using sub sp [THEN conjunct1] by (rule no_space_pair_sublist)
  moreover have "no_paren_pair p" using sub assms(2) by (rule no_paren_pair_sublist)
  ultimately show ?thesis unfolding s using ne by (rule clean_elem_settled)
qed

text \<open>
  Claim C8, as the code has it.  Take a raw address whose text at line 221 (the hint
  after lines 181 to 218) is ASCII, as \<^verbatim>\<open>unidecode\<close> leaves it, with no dash, bracket or
  brace, no opening parenthesis that has a closing one after it, and no white space
  other than single spaces.  Then every segment of its normalization is normalized to
  itself alone; so when the normalization has one segment, normalizing that segment
  gives the normalization of the raw address back.  An address whose runs of white
  space reach line 221 is left out: what becomes of it depends on line 188, whose
  result is dropped.
\<close>
theorem normalize_idempotent_on_regular:
  assumes "list_all (\<lambda>c. is_ascii c \<and> \<not> is_special c) (decoded_of tr x)"
      and "no_paren_pair (decoded_of tr x)"
      and "factorize_spaces (decoded_of tr x) = decoded_of tr x"
  shows "(\<forall>s \<in> set (normalize tr x). normalize tr s = [s])
       \<and> (length (normalize tr x) = 1 \<longrightarrow> normalize tr (hd (normalize tr x)) = normalize tr x)"
proof -
  have a: "normalize tr s = [s]" if "s \<in> set (normalize tr x)" for s
    using segments_settled [OF assms that] by (rule normalize_settled)
  have "normalize tr (hd (normalize tr x)) = normalize tr x" if "length (normalize tr x) = 1"
  proof -
    from that obtain s where s: "normalize tr x = [s]" by (cases "normalize tr x") auto
    then have "s \<in> set (normalize tr x)" by simp
    then have "normalize tr s = [s]" by (rule a)
    with s show ?thesis by simp
  qed
  with a show ?thesis by blast
qed

theorem normalize_idempotent_on_regular_witness:
  "list_all (\<lambda>c. is_ascii c \<and> \<not> is_special c)
     (decoded_of no_table ''HOME: 12 Rue Saint-Honore(Apt. 3)\<newline>75001 Paris'')
   \<and> no_paren_pair (decoded_of no_table ''HOME: 12 Rue Saint-Honore(Apt. 3)\<newline>75001 Paris'')
   \<and> factorize_spaces (decoded_of no_table ''HOME: 12 Rue Saint-Honore(Apt. 3)\<newline>75001 Paris'')
       = decoded_of no_table ''HOME: 12 Rue Saint-Honore(Apt. 3)\<newline>75001 Paris''
   \<and> normalize no_table ''HOME: 12 Rue Saint-Honore(Apt. 3)\<newline>75001 Paris''
       = [''12 rue saint honore, 75001 paris'']
   \<and> normalize no_table (hd (normalize no_table ''HOME: 12 Rue Saint-Honore(Apt. 3)\<newline>75001 Paris''))
       = normalize no_table ''HOME: 12 Rue Saint-Honore(Apt. 3)\<newline>75001 Paris''"
proof -
  let ?x = "''HOME: 12 Rue Saint-Honore(Apt. 3)\<newline>75001 Paris''"
  have a: "list_all (\<lambda>c. is_ascii c \<and> \<not> is_special c) (decoded_of no_table ?x)" by code_simp
  have b: "no_paren_pair (decoded_of no_table ?x)" by code_simp
  have c: "factorize_spaces (decoded_of no_table ?x) = decoded_of no_table ?x" by code_simp
  have d: "normalize no_table ?x = [''12 rue saint honore, 75001 paris'']" by code_simp
  then have e: "length (normalize no_table ?x) = 1" by simp
  note t = normalize_idempotent_on_regular [OF a b c]
  from t [THEN conjunct2, rule_format, OF e] a b c d show ?thesis by (intro conjI)
qed

text \<open>
  Against claim C8, four addresses on which the lines work as they are written.  The
  parenthesis of \<^verbatim>\<open>(a\nb)\<close> spans a line break, so line 181 keeps it and line 185 joins
  the two lines; the segment \<^verbatim>\<open>(a, b)\<close> that results loses everything when it is
  normalized again.  Line 216 takes the double quote out of \<^verbatim>\<open>a " ,b\<close> and leaves two
  spaces, of which line 229 takes one with the comma, and the other one the second time.
  The table of \<^verbatim>\<open>unidecode\<close> writes the plus-minus sign as \<^verbatim>\<open>+-\<close>, and line 184 takes the
  dash the second time.  And \<^verbatim>\<open>HOME: a WORK: b\<close> has two segments, the first of which
  is one segment when it is normalized.
\<close>
theorem normalize_not_idempotent_counterexample:
  "normalize no_table ''(a\<newline>b)'' = [''(a, b)'']
   \<and> normalize no_table (hd (normalize no_table ''(a\<newline>b)'')) = []
   \<and> normalize no_table [CHR ''a'', CHR '' '', CHR 0x22, CHR '' '', CHR '','', CHR ''b''] = [''a ,b'']
   \<and> normalize no_table
        (hd (normalize no_table [CHR ''a'', CHR '' '', CHR 0x22, CHR '' '', CHR '','', CHR ''b'']))
       = [''a,b'']
   \<and> normalize plus_minus_only [CHR ''a'', CHR 0xB1, CHR ''b''] = [''a+-b'']
   \<and> normalize plus_minus_only (hd (normalize plus_minus_only [CHR ''a'', CHR 0xB1, CHR ''b'']))
       = [''a+ b'']
   \<and> normalize no_table ''HOME: a WORK: b'' = [''a'', ''b'']
   \<and> normalize no_table (hd (normalize no_table ''HOME: a WORK: b'')) = [''a'']"
  by code_simp

text \<open>
  On these four addresses line 188 has nothing to collapse.
\<close>
lemma line_188_not_involved:
  "factorize_spaces (hint_before_188 ''(a\<newline>b)'') = hint_before_188 ''(a\<newline>b)''
   \<and> factorize_spaces (hint_before_188 [CHR ''a'', CHR '' '', CHR 0x22, CHR '' '', CHR '','', CHR ''b''])
       = hint_before_188 [CHR ''a'', CHR '' '', CHR 0x22, CHR '' '', CHR '','', CHR ''b'']
   \<and> factorize_spaces (hint_before_188 [CHR ''a'', CHR 0xB1, CHR ''b''])
       = hint_before_188 [CHR ''a'', CHR 0xB1, CHR ''b'']
   \<and> factorize_spaces (hint_before_188 ''HOME: a WORK: b'') = hint_before_188 ''HOME: a WORK: b''"
  by code_simp

text \<open>
  Line 188 stands under the comment \<^verbatim>\<open>Factorize multiple spaces\<close>, but it is the only
  replacement of lines 181 to 191 without \<^verbatim>\<open>inplace=True\<close>: the column keeps the hint
  as line 185 left it.
\<close>
lemma line_188_dropped: "geohint_of adr = strip_leading_comma (hint_before_188 adr)"
  by (simp add: geohint_of_def hint_before_188_def)

text \<open>
  The scenario of the spec shows it.  Line 181 puts a space in the place of
  \<^verbatim>\<open>(Apt. 3)\<close>, next to the space before it.  The two spaces reach the segment, which
  keeps one of them before its first comma, and normalizing the segment again removes
  it: on this address normalization is not idempotent.  With the result of line 188 in
  the column, the segment would be the one the spec gives.
\<close>
lemma spaces_of_the_scenario:
  "hint_before_188 ''HOME: 12 Rue de la Paix (Apt. 3), 75002 Paris, France''
     = ''HOME: 12 Rue de la Paix  , 75002 Paris, France''
   \<and> factorize_spaces (hint_before_188 ''HOME: 12 Rue de la Paix (Apt. 3), 75002 Paris, France'')
     = ''HOME: 12 Rue de la Paix , 75002 Paris, France''
   \<and> geohint_of ''HOME: 12 Rue de la Paix (Apt. 3), 75002 Paris, France''
     = ''HOME: 12 Rue de la Paix  , 75002 Paris, France''
   \<and> normalize no_table ''HOME: 12 Rue de la Paix (Apt. 3), 75002 Paris, France''
     = [''12 rue de la paix , 75002 paris, france'']
   \<and> normalize no_table (hd (normalize no_table ''HOME: 12 Rue de la Paix (Apt. 3), 75002 Paris, France''))
     = [''12 rue de la paix, 75002 paris, france'']
   \<and> filter (\<lambda>e. e \<noteq> []) (map clean_elem (split_row no_table (strip_leading_comma
        (factorize_spaces (hint_before_188 ''HOME: 12 Rue de la Paix (Apt. 3), 75002 Paris, France'')))))
     = [''12 rue de la paix, 75002 paris, france'']"
  by code_simp

end
